theory Spec2Isabelle
  imports Complex_Main "HOL-Library.AList" "HOL-Library.Sublist"
begin

section \<open>Path segments\<close>

text \<open>
  QRSVG keeps every pathspec as an array of strings, one string per SVG path command.
  The strings the program builds and inspects have seven shapes, and each shape is one
  constructor here:
  \<^item> \<open>MoveTo x y\<close> is \<^verbatim>\<open>'M' + x + ' ' + y\<close>;
  \<^item> \<open>Hop H d\<close> is \<^verbatim>\<open>'h' + d\<close> and \<open>Hop V d\<close> is \<^verbatim>\<open>'v' + d\<close>, with \<open>d\<close> an integer;
  \<^item> \<open>Arc sweep dx dy\<close> is \<^verbatim>\<open>'a0.5 0.5 0 0 ' + sweep + ' ' + dx + ' ' + dy\<close>;
  \<^item> \<open>LineTo x y\<close> is \<^verbatim>\<open>'L' + x + ' ' + y\<close> (written by the jitter pass);
  \<^item> \<open>RelLine dx dy\<close> is \<^verbatim>\<open>'l' + dx + ' ' + dy\<close> (written by the mosaic style);
  \<^item> \<open>ClosePath\<close> is \<^verbatim>\<open>'z'\<close>;
  \<^item> \<open>Junk\<close> is \<^verbatim>\<open>'undefinedundefined'\<close>, what the loop extraction would push for a
    step that moves nowhere.
  A test \<^verbatim>\<open>s.startsWith('h')\<close> or \<^verbatim>\<open>s[0] == 'h'\<close> of the source is a test for the
  constructor \<open>Hop H\<close>, a comparison \<^verbatim>\<open>s == 'h1'\<close> is \<open>s = Hop H 1\<close>, and
  \<^verbatim>\<open>parseInt(s.slice(1), 10)\<close> on a hop reads its delta. Coordinates are exact real numbers:
  the decimal strings that JavaScript prints for its doubles are not modelled, nor is the
  rounding of double arithmetic on fractions.
\<close>

datatype axis = H | V

datatype seg =
    MoveTo real real
  | Hop axis int
  | Arc bool real real
  | LineTo real real
  | RelLine real real
  | ClosePath
  | Junk

type_synonym pathspec = "seg list"

datatype error = NotInteger | TypeError | UnsupportedStyle

text \<open>\<^verbatim>\<open>parseInt(c, 10)\<close> on the decimal rendering of a coordinate: the integer part,
  truncated towards zero.\<close>

definition parseInt :: "real \<Rightarrow> real" where
  "parseInt q = (if q < 0 then - of_int \<lfloor>- q\<rfloor> else of_int \<lfloor>q\<rfloor>)"

section \<open>compactPathSpec\<close>

text \<open>The test \<^verbatim>\<open>(step[0] == 'h' || step[0] == 'v') && step[0] == prev[0]\<close> together with
  the merged token \<^verbatim>\<open>step[0] + (parseInt(prev.substring(1)) + parseInt(step.substring(1)))\<close>.\<close>

fun mergeHops :: "seg \<Rightarrow> seg \<Rightarrow> seg option" where
  "mergeHops (Hop a d1) (Hop b d2) = (if b = a then Some (Hop b (d1 + d2)) else None)"
| "mergeHops _ _ = None"

fun compactLoop :: "pathspec \<Rightarrow> pathspec \<Rightarrow> pathspec" where
  "compactLoop new [] = new"
| "compactLoop new (step # rest) =
     (case mergeHops (last new) step of
        Some m \<Rightarrow> compactLoop (butlast new @ [m]) rest
      | None \<Rightarrow> compactLoop (new @ [step]) rest)"

definition compactPathSpec :: "pathspec \<Rightarrow> pathspec" where
  "compactPathSpec oldPathSpec =
     (if oldPathSpec = [] then [] else compactLoop [hd oldPathSpec] (tl oldPathSpec))"

section \<open>makePathSpecRound\<close>

text \<open>The twelve tests on the current token and its successor, in the order of the source;
  each pushes one token when it holds. The successor is \<open>None\<close> past the end of the array,
  where \<^verbatim>\<open>oldPathSpec[i+1]\<close> is \<^verbatim>\<open>undefined\<close> and equals no string.\<close>

definition roundPair :: "seg \<Rightarrow> seg option \<Rightarrow> pathspec" where
  "roundPair c n =
     (if c = Hop H 1 \<and> n = Some (Hop H 1) then [Hop H 1] else [])
   @ (if c = Hop H (-1) \<and> n = Some (Hop H (-1)) then [Hop H (-1)] else [])
   @ (if c = Hop V 1 \<and> n = Some (Hop V 1) then [Hop V 1] else [])
   @ (if c = Hop V (-1) \<and> n = Some (Hop V (-1)) then [Hop V (-1)] else [])
   @ (if c = Hop H 1 \<and> n = Some (Hop V 1) then [Arc True (1/2) (1/2)] else [])
   @ (if c = Hop H 1 \<and> n = Some (Hop V (-1)) then [Arc False (1/2) (-1/2)] else [])
   @ (if c = Hop H (-1) \<and> n = Some (Hop V 1) then [Arc False (-1/2) (1/2)] else [])
   @ (if c = Hop H (-1) \<and> n = Some (Hop V (-1)) then [Arc True (-1/2) (-1/2)] else [])
   @ (if c = Hop V 1 \<and> n = Some (Hop H 1) then [Arc False (1/2) (1/2)] else [])
   @ (if c = Hop V 1 \<and> n = Some (Hop H (-1)) then [Arc True (-1/2) (1/2)] else [])
   @ (if c = Hop V (-1) \<and> n = Some (Hop H 1) then [Arc True (1/2) (-1/2)] else [])
   @ (if c = Hop V (-1) \<and> n = Some (Hop H (-1)) then [Arc False (-1/2) (-1/2)] else [])"

text \<open>The end of the loop body: when the last two tokens of the output are hops on the
  same axis, both are popped and their sum is pushed.\<close>

definition roundMerge :: "pathspec \<Rightarrow> pathspec" where
  "roundMerge new =
     (let len = length new in
      if len \<ge> 2 then
        (case (new ! (len - 1), new ! (len - 2)) of
           (Hop a delta1, Hop b delta2) \<Rightarrow>
             if a = b then take (len - 2) new @ [Hop a (delta1 + delta2)] else new
         | _ \<Rightarrow> new)
      else new)"

text \<open>The loop body from the test for \<^verbatim>\<open>'z'\<close> on, for the current token \<open>c\<close> and its
  successor \<open>n\<close>.\<close>

definition roundStep :: "bool \<Rightarrow> pathspec \<Rightarrow> seg \<Rightarrow> seg option \<Rightarrow> pathspec" where
  "roundStep isInnerContour new c n =
     (if c = ClosePath then
        new @ [if isInnerContour then Arc False (-1/2) (1/2) else Arc True (1/2) (-1/2), ClosePath]
      else roundMerge (new @ roundPair c n))"

definition nextOf :: "pathspec \<Rightarrow> seg option" where
  "nextOf rest = (case rest of [] \<Rightarrow> None | n # _ \<Rightarrow> Some n)"

text \<open>The start of a loop: the coordinates of the \<open>M\<close> token are parsed, one of them is
  moved by one half according to the token that follows, and the flag is set.\<close>

fun roundStart :: "bool \<Rightarrow> real \<Rightarrow> real \<Rightarrow> seg \<Rightarrow> seg \<times> bool" where
  "roundStart isInnerContour x y (Hop H d) = (MoveTo (parseInt x + 1/2) (parseInt y), False)"
| "roundStart isInnerContour x y (Hop V d) = (MoveTo (parseInt x) (parseInt y + 1/2), True)"
| "roundStart isInnerContour x y n = (MoveTo (parseInt x) (parseInt y), isInnerContour)"

text \<open>The \<^verbatim>\<open>for\<close> loop over \<^verbatim>\<open>oldPathSpec\<close>, on the tokens from index \<open>i\<close> on. An
  \<open>M\<close> token that is the last one makes \<^verbatim>\<open>oldPathSpec[i+1].startsWith\<close> throw a
  TypeError. After an \<open>M\<close> token the index is advanced, and the rest of the body runs on
  the token that follows it.\<close>

fun roundLoop :: "bool \<Rightarrow> pathspec \<Rightarrow> pathspec \<Rightarrow> error + pathspec" where
  "roundLoop isInnerContour new [] = Inr new"
| "roundLoop isInnerContour new [MoveTo x y] = Inl TypeError"
| "roundLoop isInnerContour new (MoveTo x y # n # rest) =
     (let (m, inner) = roundStart isInnerContour x y n
      in roundLoop inner (roundStep inner (new @ [m]) n (nextOf rest)) rest)"
| "roundLoop isInnerContour new (c # rest) =
     roundLoop isInnerContour (roundStep isInnerContour new c (nextOf rest)) rest"

definition makePathSpecRound :: "pathspec \<Rightarrow> error + pathspec" where
  "makePathSpecRound oldPathSpec = roundLoop False [] oldPathSpec"

section \<open>Bitmask\<close>

text \<open>
  The grid: \<open>width\<close>, \<open>height\<close> and the row-major array of cells. The constructor makes
  the array \<open>width * height\<close> cells long. Coordinates are JavaScript numbers, here
  reals, and \<^verbatim>\<open>Number.isInteger\<close> tells the whole ones.
\<close>

record bitmask =
  width :: int
  height :: int
  array :: "bool list"

definition isInteger :: "real \<Rightarrow> bool" where
  "isInteger q \<longleftrightarrow> of_int \<lfloor>q\<rfloor> = q"

definition get :: "bitmask \<Rightarrow> real \<Rightarrow> real \<Rightarrow> error + bool" where
  "get b x y =
     (if \<not> isInteger x \<or> \<not> isInteger y then Inl NotInteger
      else if x < 0 \<or> x \<ge> of_int (width b) \<or> y < 0 \<or> y \<ge> of_int (height b) then Inr False
      else Inr (array b ! nat \<lfloor>y * of_int (width b) + x\<rfloor>))"

text \<open>The contour code calls \<^verbatim>\<open>bitmask.get\<close> with whole coordinates only; \<open>cell\<close> is
  \<open>get\<close> on integers, where it cannot throw.\<close>

definition cell :: "bitmask \<Rightarrow> int \<Rightarrow> int \<Rightarrow> bool" where
  "cell b x y =
     (if x < 0 \<or> x \<ge> width b \<or> y < 0 \<or> y \<ge> height b then False
      else array b ! nat (y * width b + x))"

section \<open>calculateShapeContour\<close>

datatype direction = North | East | South | West

type_synonym vertex = "int \<times> int"
type_synonym entries = "(direction \<times> vertex) list"
type_synonym corners = "entries list"

record contour =
  pdpOuter :: pathspec
  pdpInner :: pathspec
  dots :: pathspec
  shapes :: pathspec

definition Contour :: contour where
  "Contour = \<lparr>pdpOuter = [], pdpInner = [], dots = [], shapes = []\<rparr>"

text \<open>\<^verbatim>\<open>corners[contourY * width + contourX]\<close>: the object at that index, or nothing
  (\<^verbatim>\<open>undefined\<close>) when the index is not one of the array.\<close>

definition cornerAt :: "corners \<Rightarrow> int \<Rightarrow> int \<Rightarrow> int \<Rightarrow> entries option" where
  "cornerAt cs w x y =
     (let i = y * w + x in if 0 \<le> i \<and> i < int (length cs) then Some (cs ! nat i) else None)"

definition cornerSet :: "corners \<Rightarrow> int \<Rightarrow> int \<Rightarrow> int \<Rightarrow> entries \<Rightarrow> corners" where
  "cornerSet cs w x y es = cs[nat (y * w + x) := es]"

fun turn :: "bitmask \<Rightarrow> int \<Rightarrow> int \<Rightarrow> direction \<Rightarrow> (vertex \<times> direction) option" where
  "turn b contourX contourY North =
     (if cell b contourX (contourY - 1) \<and> \<not> cell b (contourX - 1) (contourY - 1)
        then Some ((contourX, contourY - 1), North)
      else if \<not> cell b contourX (contourY - 1)
        then Some ((contourX + 1, contourY), East)
      else if cell b (contourX - 1) (contourY - 1) \<and> cell b contourX (contourY - 1)
        then Some ((contourX - 1, contourY), West)
      else None)"
| "turn b contourX contourY East =
     (if cell b contourX contourY \<and> \<not> cell b contourX (contourY - 1)
        then Some ((contourX + 1, contourY), East)
      else if \<not> cell b contourX contourY
        then Some ((contourX, contourY + 1), South)
      else if cell b contourX contourY \<and> cell b contourX (contourY - 1)
        then Some ((contourX, contourY - 1), North)
      else None)"
| "turn b contourX contourY South =
     (if cell b (contourX - 1) contourY \<and> \<not> cell b contourX contourY
        then Some ((contourX, contourY + 1), South)
      else if \<not> cell b (contourX - 1) contourY
        then Some ((contourX - 1, contourY), West)
      else if cell b contourX contourY \<and> cell b (contourX - 1) contourY
        then Some ((contourX + 1, contourY), East)
      else None)"
| "turn b contourX contourY West =
     (if cell b (contourX - 1) (contourY - 1) \<and> \<not> cell b (contourX - 1) contourY
        then Some ((contourX - 1, contourY), West)
      else if \<not> cell b (contourX - 1) (contourY - 1)
        then Some ((contourX, contourY - 1), North)
      else if cell b (contourX - 1) contourY \<and> cell b (contourX - 1) (contourY - 1)
        then Some ((contourX, contourY + 1), South)
      else None)"

definition free :: "corners \<Rightarrow> nat" where
  "free cs = sum_list (map (\<lambda>es. length (filter (\<lambda>d. map_of es d = None) [North, East, South, West])) cs)"

lemma sum_list_map_update_less:
  fixes f :: "'a \<Rightarrow> nat"
  shows "i < length xs \<Longrightarrow> f y < f (xs ! i) \<Longrightarrow>
    sum_list (map f (xs[i := y])) < sum_list (map f xs)"
proof (induction xs arbitrary: i)
  case Nil
  then show ?case by simp
next
  case (Cons x xs)
  then show ?case by (cases i) auto
qed

lemma free_update:
  assumes "i < length cs" "map_of (cs ! i) d = None"
  shows "free (cs[i := AList.update d v (cs ! i)]) < free cs"
proof -
  let ?f = "\<lambda>es. length (filter (\<lambda>d. map_of es d = None) [North, East, South, West])"
  have lt: "?f (AList.update d v (cs ! i)) < ?f (cs ! i)"
    using assms(2) by (cases d) (auto simp: AList.update_conv')
  show ?thesis
    unfolding free_def by (rule sum_list_map_update_less [OF assms(1) lt])
qed

function walk1 :: "bitmask \<Rightarrow> corners \<Rightarrow> int \<Rightarrow> int \<Rightarrow> direction \<Rightarrow> error + corners" where
  "walk1 b cs contourX contourY direction =
     (case cornerAt cs (width b + 1) contourX contourY of
        None \<Rightarrow> Inl TypeError
      | Some es \<Rightarrow>
          (case map_of es direction of
             Some v \<Rightarrow> Inr cs
           | None \<Rightarrow>
               (case turn b contourX contourY direction of
                  None \<Rightarrow> Inr cs
                | Some (next, d) \<Rightarrow>
                    walk1 b (cornerSet cs (width b + 1) contourX contourY
                               (AList.update direction next es))
                      (fst next) (snd next) d)))"
  by pat_completeness auto
termination
proof (relation "measure (\<lambda>(b, cs, x, y, d). free cs)")
  show "wf (measure (\<lambda>(b, cs, x, y, d). free cs))" by simp
next
  fix b :: bitmask and cs :: corners and contourX contourY :: int and direction es x2 x y
  assume a: "cornerAt cs (width b + 1) contourX contourY = Some es"
    "map_of es direction = None"
  then have i: "nat (contourY * (width b + 1) + contourX) < length cs"
    and es: "es = cs ! nat (contourY * (width b + 1) + contourX)"
    by (auto simp: cornerAt_def Let_def split: if_splits)
  show "((b, cornerSet cs (width b + 1) contourX contourY (AList.update direction x es),
          fst x, snd x, y), b, cs, contourX, contourY, direction)
        \<in> measure (\<lambda>(b, cs, x, y, d). free cs)"
    using free_update [OF i, of direction x] a(2) es by (simp add: cornerSet_def)
qed

declare walk1.simps [simp del]


text \<open>A \<^verbatim>\<open>for\<close> loop over a list of values whose body may throw.\<close>

fun forEach :: "('a \<Rightarrow> 's \<Rightarrow> error + 's) \<Rightarrow> 'a list \<Rightarrow> 's \<Rightarrow> error + 's" where
  "forEach f [] s = Inr s"
| "forEach f (x # xs) s = (case f x s of Inl e \<Rightarrow> Inl e | Inr s' \<Rightarrow> forEach f xs s')"

text \<open>The body of the first pair of loops over the corners: the three \<^verbatim>\<open>continue\<close>
  tests, then the walk along the contour that starts eastwards.\<close>

definition startWalk :: "bitmask \<Rightarrow> int \<Rightarrow> int \<Rightarrow> corners \<Rightarrow> error + corners" where
  "startWalk b y x cs =
     (case cornerAt cs (width b + 1) x y of
        None \<Rightarrow> Inl TypeError
      | Some es \<Rightarrow>
          if East \<in> set (map fst es) then Inr cs
          else if cell b x y = cell b (x - 1) y \<and> cell b x y = cell b x (y - 1)
                  \<and> cell b x y = cell b (x - 1) (y - 1) then Inr cs
          else if cell b x (y - 1) \<or> \<not> cell b x y then Inr cs
          else walk1 b cs x y East)"

text \<open>The test for the three position detection pattern areas.\<close>

definition inPdp :: "bitmask \<Rightarrow> int \<Rightarrow> int \<Rightarrow> int \<Rightarrow> bool" where
  "inPdp b margin x y \<longleftrightarrow>
     width b > 16 \<and> height b > 16 \<and>
     ((x < 7 + margin \<and> y < 7 + margin) \<or>
      (x < 7 + margin \<and> y > height b - margin - 7) \<or>
      (x > width b - margin - 7 \<and> y < 7 + margin))"

text \<open>One step of the second walk: the direction and the path command for the move from
  the current corner to \<open>next\<close>.\<close>

definition hopTo :: "int \<Rightarrow> int \<Rightarrow> vertex \<Rightarrow> direction \<Rightarrow> direction \<times> seg" where
  "hopTo contourX contourY next direction =
     (if fst next > contourX then (East, Hop H 1)
      else if fst next < contourX then (West, Hop H (-1))
      else if snd next > contourY then (South, Hop V 1)
      else if snd next < contourY then (North, Hop V (-1))
      else (direction, Junk))"

definition entryCount :: "corners \<Rightarrow> nat" where
  "entryCount cs = sum_list (map length cs)"

lemma length_delete_less:
  "map_of es d = Some v \<Longrightarrow> length (AList.delete d es) < length es"
proof (induction es)
  case Nil
  then show ?case by simp
next
  case (Cons p es)
  have "length (AList.delete d es) < Suc (length es)"
    using AList.length_delete_le [of d es] by simp
  then show ?case using Cons by (cases p) (auto split: if_splits)
qed

lemma entryCount_delete:
  assumes "i < length cs" "map_of (cs ! i) d = Some v"
  shows "entryCount (cs[i := AList.delete d (cs ! i)]) < entryCount cs"
  unfolding entryCount_def
  by (rule sum_list_map_update_less [OF assms(1) length_delete_less [OF assms(2)]])

function walk2 :: "int \<Rightarrow> corners \<Rightarrow> int \<Rightarrow> int \<Rightarrow> direction \<Rightarrow> pathspec \<Rightarrow>
    error + (corners \<times> pathspec)" where
  "walk2 w cs contourX contourY direction newPathSpec =
     (case cornerAt cs w contourX contourY of
        None \<Rightarrow> Inl TypeError
      | Some es \<Rightarrow>
          (case map_of es direction of
             None \<Rightarrow> Inr (cs, newPathSpec)
           | Some next \<Rightarrow>
               (let (d, step) = hopTo contourX contourY next direction
                in walk2 w (cornerSet cs w contourX contourY (AList.delete direction es))
                     (fst next) (snd next) d (newPathSpec @ [step]))))"
  by pat_completeness auto
termination
proof (relation "measure (\<lambda>(w, cs, x, y, d, p). entryCount cs)")
  show "wf (measure (\<lambda>(w, cs, x, y, d, p). entryCount cs))" by simp
next
  fix w :: int and cs :: corners and contourX contourY :: int and direction es nxt x xa y
    and newPathSpec :: pathspec
  assume a: "cornerAt cs w contourX contourY = Some es" "map_of es direction = Some nxt"
  then have i: "nat (contourY * w + contourX) < length cs"
    and es: "es = cs ! nat (contourY * w + contourX)"
    by (auto simp: cornerAt_def Let_def split: if_splits)
  show "((w, cornerSet cs w contourX contourY (AList.delete direction es), fst nxt, snd nxt,
          xa, newPathSpec @ [y]), w, cs, contourX, contourY, direction, newPathSpec)
        \<in> measure (\<lambda>(w, cs, x, y, d, p). entryCount cs)"
    using entryCount_delete [OF i, of direction nxt] a(2) es by (simp add: cornerSet_def)
qed

declare walk2.simps [simp del]

text \<open>The end of a traced path: a path of at most two tokens is skipped, the last hop
  of a path with an even number of tokens is popped, and \<open>z\<close> is pushed.\<close>

definition closeLoop :: "pathspec \<Rightarrow> pathspec option" where
  "closeLoop newPathSpec =
     (if length newPathSpec \<le> 2 then None
      else Some ((if length newPathSpec mod 2 = 0 then butlast newPathSpec else newPathSpec)
                 @ [ClosePath]))"

fun startsWithV :: "seg \<Rightarrow> bool" where
  "startsWithV (Hop V d) = True"
| "startsWithV _ = False"

definition addLoop :: "pathspec \<Rightarrow> contour \<Rightarrow> contour" where
  "addLoop newPathSpec contour =
     (if length newPathSpec = 6 \<and> \<not> startsWithV (newPathSpec ! 1)
      then contour\<lparr>dots := dots contour @ newPathSpec\<rparr>
      else contour\<lparr>shapes := shapes contour @ newPathSpec\<rparr>)"

text \<open>The body of the second pair of loops over the corners.\<close>

definition tracePath :: "bitmask \<Rightarrow> int \<Rightarrow> int \<Rightarrow> int \<Rightarrow> corners \<times> contour \<Rightarrow>
    error + (corners \<times> contour)" where
  "tracePath b margin y x st =
     (let (cs, contour) = st in
      if inPdp b margin x y then Inr (cs, contour)
      else
        (case cornerAt cs (width b + 1) x y of
           None \<Rightarrow> Inl TypeError
         | Some [] \<Rightarrow> Inr (cs, contour)
         | Some ((direction, v) # es) \<Rightarrow>
             (case walk2 (width b + 1) cs x y direction
                     [MoveTo (of_int (x + margin)) (of_int (y + margin))] of
                Inl e \<Rightarrow> Inl e
              | Inr (cs', newPathSpec) \<Rightarrow>
                  (case closeLoop newPathSpec of
                     None \<Rightarrow> Inr (cs', contour)
                   | Some p \<Rightarrow> Inr (cs', addLoop p contour)))))"

definition newCorners :: "bitmask \<Rightarrow> corners" where
  "newCorners b = concat (map (\<lambda>y. map (\<lambda>x. []) [0..width b]) [0..height b])"

definition buildCorners :: "bitmask \<Rightarrow> error + corners" where
  "buildCorners b =
     forEach (\<lambda>y. forEach (startWalk b y) [0..width b]) [0..height b] (newCorners b)"

definition calculateShapeContour :: "bitmask \<Rightarrow> int \<Rightarrow> string \<Rightarrow> error + contour" where
  "calculateShapeContour b margin style =
     (case buildCorners b of
        Inl e \<Rightarrow> Inl e
      | Inr cs \<Rightarrow>
          (case forEach (\<lambda>y. forEach (tracePath b margin y) [0..width b]) [0..height b]
                  (cs, Contour) of
             Inl e \<Rightarrow> Inl e
           | Inr (cs', contour) \<Rightarrow> Inr contour))"

section \<open>PRNG\<close>

text \<open>
  The state of the generator is a whole number held in a double. \<open>toDouble\<close> is the
  rounding of a natural number to the nearest double (53 significant bits, ties to the
  even significand): the product \<^verbatim>\<open>this.a * this.state\<close> exceeds \<open>2^53\<close> and is rounded,
  and so is the sum with \<^verbatim>\<open>this.c\<close>; the remainder \<^verbatim>\<open>% this.m\<close> is exact. The quotient
  \<^verbatim>\<open>this.state / (this.m - 1)\<close> that \<open>next\<close> returns is the exact one here.
\<close>

fun bitlen :: "nat \<Rightarrow> nat" where
  "bitlen n = (if n = 0 then 0 else Suc (bitlen (n div 2)))"

declare bitlen.simps [simp del]

definition toDouble :: "nat \<Rightarrow> nat" where
  "toDouble n =
     (if n < 2 ^ 53 then n
      else
        (let e = bitlen n - 53; q = n div 2 ^ e; r = n mod 2 ^ e
         in if 2 * r > 2 ^ e \<or> (2 * r = 2 ^ e \<and> odd q) then (q + 1) * 2 ^ e else q * 2 ^ e))"

definition PRNG_m :: nat where "PRNG_m = 2147483648"
definition PRNG_a :: nat where "PRNG_a = 1103515245"
definition PRNG_c :: nat where "PRNG_c = 12345"

text \<open>\<^verbatim>\<open>new PRNG(seed)\<close> for a seed that is a positive whole number; the state drawn at
  random for a seed of zero is not modelled.\<close>

definition PRNG :: "nat \<Rightarrow> nat" where
  "PRNG seed = seed"

definition PRNG_next :: "nat \<Rightarrow> real \<times> nat" where
  "PRNG_next state =
     (let state' = toDouble (toDouble (PRNG_a * state) + PRNG_c) mod PRNG_m
      in (real state' / real (PRNG_m - 1), state'))"

section \<open>addJitterToPathSpec\<close>

fun jitterLoop :: "real \<Rightarrow> real \<times> real \<Rightarrow> nat \<Rightarrow> pathspec \<Rightarrow> pathspec \<Rightarrow> pathspec \<times> nat" where
  "jitterLoop jitterValue currentPos prng new [] = (new, prng)"
| "jitterLoop jitterValue currentPos prng new (MoveTo x y # rest) =
     jitterLoop jitterValue (parseInt x, parseInt y) prng (new @ [MoveTo x y]) rest"
| "jitterLoop jitterValue currentPos prng new (Hop a distance # rest) =
     (let pos = (case a of H \<Rightarrow> (fst currentPos + of_int distance, snd currentPos)
                        | V \<Rightarrow> (fst currentPos, snd currentPos + of_int distance));
          (r0, prng0) = PRNG_next prng;
          (r1, prng1) = PRNG_next prng0
      in jitterLoop jitterValue pos prng1
           (new @ [LineTo (fst pos + (r0 * 2 - 1) * jitterValue)
                          (snd pos + (r1 * 2 - 1) * jitterValue)]) rest)"
| "jitterLoop jitterValue currentPos prng new (step # rest) =
     jitterLoop jitterValue currentPos prng (new @ [step]) rest"

text \<open>The position starts as \<^verbatim>\<open>[null, null]\<close>, which counts as zero in the sums.\<close>

definition addJitterToPathSpec :: "pathspec \<Rightarrow> real \<Rightarrow> nat \<Rightarrow> pathspec \<times> nat" where
  "addJitterToPathSpec oldPathSpec jitterValue prng =
     jitterLoop jitterValue (0, 0) prng [] oldPathSpec"

section \<open>calculateDotsOrMosaicContour\<close>

definition dotPath :: "int \<Rightarrow> int \<Rightarrow> int \<Rightarrow> pathspec" where
  "dotPath x y margin =
     [MoveTo (of_int (x + margin) + 1/2) (of_int (y + margin)),
      Arc True (1/2) (1/2), Arc True (-1/2) (1/2), Arc True (-1/2) (-1/2), Arc True (1/2) (-1/2),
      ClosePath]"

definition mosaicSize :: real where "mosaicSize = 9/10"
definition maxAngle :: real where "maxAngle = pi * (3/100)"

definition mosaicAngle :: "real \<Rightarrow> real" where
  "mosaicAngle r = (r * 2 - 1) * maxAngle"

text \<open>The square of the mosaic style. \<open>toPrecision\<close> stands for \<^verbatim>\<open>Number.toPrecision(3)\<close>,
  read as the number that the decimal string denotes; a prefixed minus sign, with
  \<^verbatim>\<open>replaceAll('--', '')\<close>, negates that number.\<close>

definition mosaicPath :: "(real \<Rightarrow> real) \<Rightarrow> int \<Rightarrow> int \<Rightarrow> int \<Rightarrow> real \<Rightarrow> pathspec" where
  "mosaicPath toPrecision x y margin angle =
     (let size = mosaicSize;
          topLeftX = of_int (x + margin) + 1/2 + ((1 - size) / 2) - 1/2 * cos angle + 1/2 * sin angle;
          topLeftY = of_int (y + margin) + 1/2 + ((1 - size) / 2) + 1/2 * cos angle - 1/2 * sin angle - 1
      in [MoveTo (toPrecision topLeftX) (toPrecision topLeftY),
          RelLine (toPrecision (size * cos angle)) (toPrecision (size * sin angle)),
          RelLine (- toPrecision (size * sin angle)) (toPrecision (size * cos angle)),
          RelLine (- toPrecision (size * cos angle)) (- toPrecision (size * sin angle)),
          RelLine (toPrecision (size * sin angle)) (- toPrecision (size * cos angle)),
          ClosePath])"

text \<open>The body of the loops over the cells; the state is the generator and the contour.\<close>

definition cellMark :: "(real \<Rightarrow> real) \<Rightarrow> bitmask \<Rightarrow> int \<Rightarrow> string \<Rightarrow> int \<Rightarrow> int \<Rightarrow>
    nat \<times> contour \<Rightarrow> nat \<times> contour" where
  "cellMark toPrecision b margin style y x st =
     (let (prng, contour) = st in
      if inPdp b margin x y then (prng, contour)
      else if cell b x y then
        (let newPathSpec = (if style = ''dots'' then dotPath x y margin else []);
             (r, prng') = (if style = ''mosaic'' then PRNG_next prng else (0, prng));
             newPathSpec = newPathSpec @
               (if style = ''mosaic'' then mosaicPath toPrecision x y margin (mosaicAngle r) else [])
         in if \<not> cell b (x - 1) y \<and> \<not> cell b (x + 1) y \<and> \<not> cell b x (y - 1) \<and> \<not> cell b x (y + 1)
            then (prng', contour\<lparr>dots := dots contour @ newPathSpec\<rparr>)
            else (prng', contour\<lparr>shapes := shapes contour @ newPathSpec\<rparr>))
      else (prng, contour))"

definition calculateDotsOrMosaicContour ::
    "(real \<Rightarrow> real) \<Rightarrow> bitmask \<Rightarrow> int \<Rightarrow> string \<Rightarrow> error + contour" where
  "calculateDotsOrMosaicContour toPrecision b margin style =
     (if style \<noteq> ''dots'' \<and> style \<noteq> ''mosaic'' then Inl UnsupportedStyle
      else Inr (snd (fold (\<lambda>y. fold (cellMark toPrecision b margin style y) [0..width b - 1])
                       [0..height b - 1] (PRNG 1, Contour))))"

section \<open>calculateContour\<close>

definition pdpOuterAt :: "int \<times> int \<Rightarrow> pathspec" where
  "pdpOuterAt offset =
     [MoveTo (of_int (fst offset)) (of_int (snd offset))]
     @ replicate 7 (Hop H 1) @ replicate 7 (Hop V 1)
     @ replicate 7 (Hop H (-1)) @ replicate 7 (Hop V (-1)) @ [ClosePath]
     @ [MoveTo (of_int (fst offset + 1)) (of_int (snd offset + 1))]
     @ replicate 5 (Hop V 1) @ replicate 5 (Hop H 1)
     @ replicate 5 (Hop V (-1)) @ replicate 5 (Hop H (-1)) @ [ClosePath]"

definition pdpInnerAt :: "int \<times> int \<Rightarrow> pathspec" where
  "pdpInnerAt offset =
     [MoveTo (of_int (fst offset + 2)) (of_int (snd offset + 2))]
     @ replicate 3 (Hop H 1) @ replicate 3 (Hop V 1)
     @ replicate 3 (Hop H (-1)) @ replicate 3 (Hop V (-1)) @ [ClosePath]"

definition pdpOffsets :: "bitmask \<Rightarrow> int \<Rightarrow> (int \<times> int) list" where
  "pdpOffsets b margin =
     [(margin, margin), (width b + margin - 7, margin), (margin, height b + margin - 7)]"

text \<open>The position detection patterns: built when the bitmask is more than 16 wide and
  high, and rounded for the styles \<open>dots\<close> and \<open>rounded\<close>, the inner one first.\<close>

definition buildPdp :: "bitmask \<Rightarrow> int \<Rightarrow> string \<Rightarrow> contour \<Rightarrow> error + contour" where
  "buildPdp b margin style contour =
     (if width b > 16 \<and> height b > 16 then
        (let contour = contour\<lparr>pdpOuter := pdpOuter contour @ concat (map pdpOuterAt (pdpOffsets b margin)),
                                pdpInner := pdpInner contour @ concat (map pdpInnerAt (pdpOffsets b margin))\<rparr>
         in if style = ''dots'' \<or> style = ''rounded'' then
              (case makePathSpecRound (pdpInner contour) of
                 Inl e \<Rightarrow> Inl e
               | Inr inner \<Rightarrow>
                   (case makePathSpecRound (pdpOuter contour) of
                      Inl e \<Rightarrow> Inl e
                    | Inr outer \<Rightarrow> Inr (contour\<lparr>pdpInner := inner, pdpOuter := outer\<rparr>)))
            else Inr contour)
      else Inr contour)"

text \<open>The rounding of shapes and dots for the style \<open>rounded\<close>, the shapes first.\<close>

definition roundContour :: "string \<Rightarrow> contour \<Rightarrow> error + contour" where
  "roundContour style contour =
     (if style = ''rounded'' then
        (case makePathSpecRound (shapes contour) of
           Inl e \<Rightarrow> Inl e
         | Inr s \<Rightarrow>
             (case makePathSpecRound (dots contour) of
                Inl e \<Rightarrow> Inl e
              | Inr d \<Rightarrow> Inr (contour\<lparr>shapes := s, dots := d\<rparr>)))
      else Inr contour)"

definition jitterValueOf :: "string \<Rightarrow> real" where
  "jitterValueOf style =
     (if style = ''jitter-heavy'' then 15/100
      else if style = ''jitter-light'' then 7/100
      else 0)"

text \<open>The four calls of \<open>addJitterToPathSpec\<close> on one generator: shapes, dots, inner and
  outer position detection pattern.\<close>

definition jitterContour :: "real \<Rightarrow> nat \<Rightarrow> contour \<Rightarrow> contour" where
  "jitterContour jitterValue prng contour =
     (let (s, prng1) = addJitterToPathSpec (shapes contour) jitterValue prng;
          (d, prng2) = addJitterToPathSpec (dots contour) jitterValue prng1;
          (i, prng3) = addJitterToPathSpec (pdpInner contour) jitterValue prng2;
          (out, prng4) = addJitterToPathSpec (pdpOuter contour) jitterValue prng3
      in contour\<lparr>shapes := s, dots := d, pdpInner := i, pdpOuter := out\<rparr>)"

definition compactContour :: "contour \<Rightarrow> contour" where
  "compactContour contour =
     contour\<lparr>shapes := compactPathSpec (shapes contour),
             dots := compactPathSpec (dots contour),
             pdpInner := compactPathSpec (pdpInner contour),
             pdpOuter := compactPathSpec (pdpOuter contour)\<rparr>"

text \<open>\<open>calculateContour\<close>: the position detection patterns, the contour of the cells,
  the rounding for the style \<open>rounded\<close>, then jitter with \<^verbatim>\<open>new PRNG(1)\<close> or
  compaction.\<close>

definition calculateContour ::
    "(real \<Rightarrow> real) \<Rightarrow> bitmask \<Rightarrow> int \<Rightarrow> string \<Rightarrow> error + contour" where
  "calculateContour toPrecision b margin style =
     (case buildPdp b margin style Contour of
        Inl e \<Rightarrow> Inl e
      | Inr contour \<Rightarrow>
          (case (if style = ''dots'' \<or> style = ''mosaic''
                 then calculateDotsOrMosaicContour toPrecision b margin style
                 else calculateShapeContour b margin style) of
             Inl e \<Rightarrow> Inl e
           | Inr newContour \<Rightarrow>
               (case roundContour style
                       (contour\<lparr>dots := dots newContour, shapes := shapes newContour\<rparr>) of
                  Inl e \<Rightarrow> Inl e
                | Inr contour \<Rightarrow>
                    if prefix ''jitter-'' style
                    then Inr (jitterContour (jitterValueOf style) (PRNG 1) contour)
                    else Inr (compactContour contour))))"

section \<open>render\<close>

text \<open>What \<open>render\<close> leaves in the SVG element: the size in the \<open>viewBox\<close> attribute and
  one path per contour type, in the order of the properties of \<open>Contour\<close>.\<close>

record svg =
  viewBox :: "int \<times> int"
  paths :: "pathspec list"

definition render :: "(real \<Rightarrow> real) \<Rightarrow> bitmask \<Rightarrow> string \<Rightarrow> error + svg" where
  "render toPrecision b style =
     (if style \<notin> set [''basic'', ''rounded'', ''dots'', ''mosaic'', ''jitter-light'', ''jitter-heavy'']
      then Inl UnsupportedStyle
      else
        (case calculateContour toPrecision b 1 style of
           Inl e \<Rightarrow> Inl e
         | Inr contours \<Rightarrow>
             Inr \<lparr>viewBox = (width b + 2, height b + 2),
                  paths = [pdpOuter contours, pdpInner contours, dots contours, shapes contours]\<rparr>))"

section \<open>Replaying a pathspec\<close>

text \<open>
  The pen of an SVG path: the current point and the start of the current subpath.
  \<open>M\<close> and \<open>L\<close> are absolute, \<open>h\<close>, \<open>v\<close>, \<open>l\<close> and \<open>a\<close> are relative to the current
  point, and \<open>z\<close> returns to the start of the subpath.
\<close>

type_synonym point = "real \<times> real"

type_synonym pen = "point \<times> point"

fun draw :: "seg \<Rightarrow> pen \<Rightarrow> pen" where
  "draw (MoveTo x y) (p, s) = ((x, y), (x, y))"
| "draw (Hop H d) ((x, y), s) = ((x + of_int d, y), s)"
| "draw (Hop V d) ((x, y), s) = ((x, y + of_int d), s)"
| "draw (Arc f dx dy) ((x, y), s) = ((x + dx, y + dy), s)"
| "draw (LineTo x y) (p, s) = ((x, y), s)"
| "draw (RelLine dx dy) ((x, y), s) = ((x + dx, y + dy), s)"
| "draw ClosePath (p, s) = (s, s)"
| "draw Junk (p, s) = (p, s)"

fun replay :: "pen \<Rightarrow> pathspec \<Rightarrow> pen" where
  "replay st [] = st"
| "replay st (t # ts) = replay (draw t st) ts"

text \<open>
  The polygon vertices of a pathspec: the point reached after each command, except
  inside a straight run, that is after a hop that is followed by a hop on the same axis.
\<close>

fun vertices :: "pen \<Rightarrow> pathspec \<Rightarrow> point list" where
  "vertices st [] = []"
| "vertices st [t] = [fst (draw t st)]"
| "vertices st (t # u # ts) =
     (if mergeHops t u = None then fst (draw t st) # vertices (draw t st) (u # ts)
      else vertices (draw t st) (u # ts))"

fun isMoveTo :: "seg \<Rightarrow> bool" where
  "isMoveTo (MoveTo x y) = True"
| "isMoveTo _ = False"

section \<open>Example grids\<close>

text \<open>Three by three, only the cell in the middle filled.\<close>

definition centreGrid :: bitmask where
  "centreGrid = \<lparr>width = 3, height = 3,
     array = [False, False, False, False, True, False, False, False, False]\<rparr>"

text \<open>One row of three cells, the outer two filled.\<close>

definition twoCells :: bitmask where
  "twoCells = \<lparr>width = 3, height = 1, array = [True, False, True]\<rparr>"

text \<open>Seventeen by seventeen, large enough for the position detection patterns, with
  two filled cells in the top row, right of the first pattern.\<close>

definition edgeGrid :: bitmask where
  "edgeGrid = \<lparr>width = 17, height = 17,
     array = replicate 7 False @ [True, True] @ replicate 280 False\<rparr>"

section \<open>Mosaic squares\<close>

text \<open>An angle in radians, in degrees.\<close>

definition degrees :: "real \<Rightarrow> real" where
  "degrees a = a * 180 / pi"

text \<open>A pathspec made of mosaic squares of filled cells, each turned by an angle drawn
  from the generator in some state.\<close>

definition mosaicSquares :: "(real \<Rightarrow> real) \<Rightarrow> bitmask \<Rightarrow> int \<Rightarrow> pathspec \<Rightarrow> bool" where
  "mosaicSquares toPrecision b margin p \<longleftrightarrow>
     (\<exists>cells. p = concat (map (\<lambda>(x, y, g).
                   mosaicPath toPrecision x y margin (mosaicAngle (fst (PRNG_next g)))) cells)
            \<and> (\<forall>(x, y, g) \<in> set cells. cell b x y))"

definition mosaicInv :: "(real \<Rightarrow> real) \<Rightarrow> bitmask \<Rightarrow> int \<Rightarrow> nat \<times> contour \<Rightarrow> bool" where
  "mosaicInv tp b margin st \<longleftrightarrow>
     mosaicSquares tp b margin (dots (snd st)) \<and> mosaicSquares tp b margin (shapes (snd st))
     \<and> pdpOuter (snd st) = [] \<and> pdpInner (snd st) = []"

text \<open>A vector turned by a quarter of a turn, and a loop of four relative lines that is
  a square: each side is the side before it turned by a quarter of a turn.\<close>

definition rot90 :: "real \<times> real \<Rightarrow> real \<times> real" where
  "rot90 v = (- snd v, fst v)"

definition squareLoop :: "real \<times> real \<Rightarrow> pathspec \<Rightarrow> bool" where
  "squareLoop v l \<longleftrightarrow>
     (\<exists>X Y. l = [MoveTo X Y,
                 RelLine (fst v) (snd v),
                 RelLine (fst (rot90 v)) (snd (rot90 v)),
                 RelLine (- fst v) (- snd v),
                 RelLine (- fst (rot90 v)) (- snd (rot90 v)),
                 ClosePath])"

text \<open>The vectors of the relative lines of a pathspec.\<close>

fun sidesOf :: "pathspec \<Rightarrow> (real \<times> real) list" where
  "sidesOf [] = []"
| "sidesOf (RelLine dx dy # ts) = (dx, dy) # sidesOf ts"
| "sidesOf (t # ts) = sidesOf ts"

text \<open>
  A square of the mosaic style: its first side, before formatting, has length 0.9 and
  makes an angle \<open>a\<close> with the horizontal axis; \<open>a\<close> is \<open>(2 r - 1) 0.03 \<pi>\<close> for a number
  \<open>r\<close> that the generator returns in some state, and is at most 5.4 degrees in absolute
  value. A pathspec of mosaic squares is a sequence of such loops.
\<close>

definition mosaicLoop :: "(real \<Rightarrow> real) \<Rightarrow> pathspec \<Rightarrow> bool" where
  "mosaicLoop toPrecision l \<longleftrightarrow>
     (\<exists>g. let a = (fst (PRNG_next g) * 2 - 1) * (pi * (3/100)) in
        \<bar>a * 180 / pi\<bar> \<le> 27/5
        \<and> squareLoop (toPrecision (9/10 * cos a), toPrecision (9/10 * sin a)) l)"

definition mosaicLoops :: "(real \<Rightarrow> real) \<Rightarrow> pathspec \<Rightarrow> bool" where
  "mosaicLoops toPrecision p \<longleftrightarrow>
     (\<exists>ls. p = concat ls \<and> (\<forall>l \<in> set ls. mosaicLoop toPrecision l))"

text \<open>The filled cells that get a square, in the order of the loops over the cells: those
  outside the areas of the position detection patterns. The number of loops of the dots
  and the shapes of a contour.\<close>

definition mosaicCells :: "bitmask \<Rightarrow> int \<Rightarrow> (int \<times> int) list" where
  "mosaicCells b margin =
     concat (map (\<lambda>y. map (\<lambda>x. (x, y))
                   (filter (\<lambda>x. \<not> inPdp b margin x y \<and> cell b x y) [0..width b - 1]))
                 [0..height b - 1])"

definition loopCount :: "contour \<Rightarrow> nat" where
  "loopCount c = count_list (dots c) ClosePath + count_list (shapes c) ClosePath"

text \<open>The loop of \<open>compactPathSpec\<close> with the last token of the output kept apart.\<close>

fun comp :: "seg \<Rightarrow> pathspec \<Rightarrow> pathspec" where
  "comp prev [] = [prev]"
| "comp prev (s # r) =
     (case mergeHops prev s of Some m \<Rightarrow> comp m r | None \<Rightarrow> prev # comp s r)"

fun kind :: "seg \<Rightarrow> axis option" where
  "kind (Hop a d) = Some a"
| "kind _ = None"

fun compacted :: "pathspec \<Rightarrow> bool" where
  "compacted (a # b # r) = (mergeHops a b = None \<and> compacted (b # r))"
| "compacted _ = True"

section \<open>Contour states\<close>

text \<open>Notions for the proofs about \<open>calculateShapeContour\<close>: a state is a corner together
  with the direction in which a contour arrives there.\<close>

type_synonym state = "int \<times> int \<times> direction"

fun inGrid :: "bitmask \<Rightarrow> state \<Rightarrow> bool" where
  "inGrid b (x, y, d) \<longleftrightarrow> 0 \<le> x \<and> x \<le> width b \<and> 0 \<le> y \<and> y \<le> height b"

text \<open>A contour arrives at a corner in a direction with the filled cell on its right.\<close>

fun legit :: "bitmask \<Rightarrow> state \<Rightarrow> bool" where
  "legit b (x, y, East) \<longleftrightarrow> cell b (x - 1) y \<and> \<not> cell b (x - 1) (y - 1)"
| "legit b (x, y, South) \<longleftrightarrow> cell b (x - 1) (y - 1) \<and> \<not> cell b x (y - 1)"
| "legit b (x, y, West) \<longleftrightarrow> cell b x (y - 1) \<and> \<not> cell b x y"
| "legit b (x, y, North) \<longleftrightarrow> cell b x y \<and> \<not> cell b (x - 1) y"

fun startable :: "bitmask \<Rightarrow> state \<Rightarrow> bool" where
  "startable b (x, y, d) \<longleftrightarrow> d = East \<and> cell b x y \<and> \<not> cell b x (y - 1)"

definition ok :: "bitmask \<Rightarrow> state \<Rightarrow> bool" where
  "ok b s \<longleftrightarrow> legit b s \<or> startable b s"

fun ahead :: "direction \<Rightarrow> int \<Rightarrow> int \<Rightarrow> vertex" where
  "ahead East x y = (x + 1, y)"
| "ahead South x y = (x, y + 1)"
| "ahead West x y = (x - 1, y)"
| "ahead North x y = (x, y - 1)"

fun step :: "bitmask \<Rightarrow> state \<Rightarrow> state" where
  "step b (x, y, d) =
     (case turn b x y d of Some (v, d') \<Rightarrow> (fst v, snd v, d') | None \<Rightarrow> (x, y, d))"

fun look :: "bitmask \<Rightarrow> corners \<Rightarrow> state \<Rightarrow> vertex option" where
  "look b cs (x, y, d) =
     (case cornerAt cs (width b + 1) x y of None \<Rightarrow> None | Some es \<Rightarrow> map_of es d)"

definition sized :: "bitmask \<Rightarrow> corners \<Rightarrow> bool" where
  "sized b cs \<longleftrightarrow> length cs = nat (width b + 1) * nat (height b + 1)"

definition sound :: "bitmask \<Rightarrow> corners \<Rightarrow> bool" where
  "sound b cs \<longleftrightarrow> sized b cs \<and>
     (\<forall>x y d v. inGrid b (x, y, d) \<longrightarrow> look b cs (x, y, d) = Some v \<longrightarrow>
        ok b (x, y, d) \<and> (\<exists>d'. turn b x y d = Some (v, d')))"

text \<open>Every stored state has its successor stored, but for the state in \<open>fr\<close>.\<close>

definition succStored :: "bitmask \<Rightarrow> corners \<Rightarrow> state option \<Rightarrow> bool" where
  "succStored b cs fr \<longleftrightarrow>
     (\<forall>s. inGrid b s \<longrightarrow> look b cs s \<noteq> None \<longrightarrow>
        look b cs (step b s) \<noteq> None \<or> fr = Some (step b s))"

declare look.simps [simp del] step.simps [simp del]


fun hopOf :: "direction \<Rightarrow> seg" where
  "hopOf East = Hop H 1"
| "hopOf West = Hop H (- 1)"
| "hopOf South = Hop V 1"
| "hopOf North = Hop V (- 1)"

fun dirOf :: "state \<Rightarrow> direction" where
  "dirOf (x, y, d) = d"

fun vertexOf :: "state \<Rightarrow> vertex" where
  "vertexOf (x, y, d) = (x, y)"

definition hopAt :: "bitmask \<Rightarrow> state \<Rightarrow> nat \<Rightarrow> seg" where
  "hopAt b s0 j = hopOf (dirOf ((step b ^^ Suc j) s0))"

text \<open>The states \<open>s0\<close>, \<open>step s0\<close>, ... up to the \<open>n\<close>th were stored in \<open>cs0\<close>, differ from
  one another, and are what \<open>cs\<close> has lost of \<open>cs0\<close>.\<close>

definition visited :: "bitmask \<Rightarrow> corners \<Rightarrow> state \<Rightarrow> nat \<Rightarrow> corners \<Rightarrow> bool" where
  "visited b cs0 s0 n cs \<longleftrightarrow>
     sized b cs
     \<and> (\<forall>j<n. look b cs0 ((step b ^^ j) s0) \<noteq> None)
     \<and> (\<forall>i j. i < j \<and> j < n \<longrightarrow> (step b ^^ i) s0 \<noteq> (step b ^^ j) s0)
     \<and> (\<forall>s. inGrid b s \<longrightarrow>
           look b cs s = (if \<exists>j<n. s = (step b ^^ j) s0 then None else look b cs0 s))"

text \<open>Every stored state that a contour arrives in has its successor stored.\<close>

definition legitClosed :: "bitmask \<Rightarrow> corners \<Rightarrow> bool" where
  "legitClosed b cs \<longleftrightarrow>
     (\<forall>s. inGrid b s \<longrightarrow> legit b s \<longrightarrow> look b cs s \<noteq> None \<longrightarrow> look b cs (step b s) \<noteq> None)"

text \<open>
  Reading a pathspec as a sequence of loops, each a \<open>MoveTo\<close>, then commands that draw,
  then a \<open>ClosePath\<close>: every loop has the pen back at its start when \<open>ClosePath\<close> comes.
  The first argument is the pen inside a loop, and \<open>None\<close> between loops.
\<close>

fun closedFrom :: "pen option \<Rightarrow> pathspec \<Rightarrow> bool" where
  "closedFrom None [] = True"
| "closedFrom (Some st) [] = False"
| "closedFrom None (MoveTo x y # ts) = closedFrom (Some ((x, y), (x, y))) ts"
| "closedFrom None (t # ts) = False"
| "closedFrom (Some st) (ClosePath # ts) = (fst st = snd st \<and> closedFrom None ts)"
| "closedFrom (Some st) (MoveTo x y # ts) = False"
| "closedFrom (Some st) (t # ts) = closedFrom (Some (draw t st)) ts"

definition allLoopsClosed :: "pathspec \<Rightarrow> bool" where
  "allLoopsClosed p = closedFrom None p"

definition traceInv :: "contour \<Rightarrow> bool" where
  "traceInv c \<longleftrightarrow> allLoopsClosed (dots c) \<and> allLoopsClosed (shapes c)
     \<and> pdpOuter c = [] \<and> pdpInner c = []"

section \<open>The position detection patterns of the result\<close>

text \<open>
  The loops of one position detection pattern as they are in the result: with rounded
  corners, as \<open>makePathSpecRound\<close> leaves them, and with square corners, as
  \<open>compactPathSpec\<close> leaves them.
\<close>

definition roundedInnerAt :: "int \<times> int \<Rightarrow> pathspec" where
  "roundedInnerAt offset =
     [MoveTo (of_int (fst offset + 2) + 1/2) (of_int (snd offset + 2)),
      Hop H 2, Arc True (1/2) (1/2), Hop V 2, Arc True (-1/2) (1/2),
      Hop H (-2), Arc True (-1/2) (-1/2), Hop V (-2), Arc True (1/2) (-1/2), ClosePath]"

definition roundedOuterAt :: "int \<times> int \<Rightarrow> pathspec" where
  "roundedOuterAt offset =
     [MoveTo (of_int (fst offset) + 1/2) (of_int (snd offset)),
      Hop H 6, Arc True (1/2) (1/2), Hop V 6, Arc True (-1/2) (1/2),
      Hop H (-6), Arc True (-1/2) (-1/2), Hop V (-6), Arc True (1/2) (-1/2), ClosePath,
      MoveTo (of_int (fst offset + 1)) (of_int (snd offset + 1) + 1/2),
      Hop V 4, Arc False (1/2) (1/2), Hop H 4, Arc False (1/2) (-1/2),
      Hop V (-4), Arc False (-1/2) (-1/2), Hop H (-4), Arc False (-1/2) (1/2), ClosePath]"

definition squareInnerAt :: "int \<times> int \<Rightarrow> pathspec" where
  "squareInnerAt offset =
     [MoveTo (of_int (fst offset + 2)) (of_int (snd offset + 2)),
      Hop H 3, Hop V 3, Hop H (-3), Hop V (-3), ClosePath]"

definition squareOuterAt :: "int \<times> int \<Rightarrow> pathspec" where
  "squareOuterAt offset =
     [MoveTo (of_int (fst offset)) (of_int (snd offset)),
      Hop H 7, Hop V 7, Hop H (-7), Hop V (-7), ClosePath,
      MoveTo (of_int (fst offset + 1)) (of_int (snd offset + 1)),
      Hop V 5, Hop H 5, Hop V (-5), Hop H (-5), ClosePath]"

text \<open>The two sequences after the first part of \<open>calculateContour\<close>.\<close>

definition pdpOuterOf :: "bitmask \<Rightarrow> int \<Rightarrow> string \<Rightarrow> pathspec" where
  "pdpOuterOf b margin style =
     (if width b > 16 \<and> height b > 16
      then concat (map (if style = ''dots'' \<or> style = ''rounded'' then roundedOuterAt else pdpOuterAt)
                       (pdpOffsets b margin))
      else [])"

definition pdpInnerOf :: "bitmask \<Rightarrow> int \<Rightarrow> string \<Rightarrow> pathspec" where
  "pdpInnerOf b margin style =
     (if width b > 16 \<and> height b > 16
      then concat (map (if style = ''dots'' \<or> style = ''rounded'' then roundedInnerAt else pdpInnerAt)
                       (pdpOffsets b margin))
      else [])"

section \<open>The last step of calculateContour\<close>

text \<open>The end of \<open>calculateContour\<close>, jitter or compaction, as a function of the contour
  before it.\<close>

definition finish :: "string \<Rightarrow> contour \<Rightarrow> contour" where
  "finish style raw =
     (if prefix ''jitter-'' style then jitterContour (jitterValueOf style) (PRNG 1) raw
      else compactContour raw)"

text \<open>The number of hops of a pathspec, and the generator after \<open>n\<close> calls of
  \<open>next\<close>.\<close>

definition hopCount :: "pathspec \<Rightarrow> nat" where
  "hopCount p = length (filter (\<lambda>t. kind t \<noteq> None) p)"

definition PRNG_skip :: "nat \<Rightarrow> nat \<Rightarrow> nat" where
  "PRNG_skip n g = ((\<lambda>g. snd (PRNG_next g)) ^^ n) g"

text \<open>The numbers that the generator returns from a state on: the one with index
  \<open>k\<close> is returned by call \<open>k + 1\<close> of \<open>next\<close>.\<close>

definition PRNG_stream :: "nat \<Rightarrow> nat \<Rightarrow> real" where
  "PRNG_stream g k = fst (PRNG_next (PRNG_skip k g))"

text \<open>
  The jitter of a pathspec written with the numbers of a stream: a hop becomes a line to
  the end of the hop moved by the two numbers with index \<open>k\<close> and \<open>k + 1\<close>, scaled to
  the jitter value, and the hops after it take the numbers from index \<open>k + 2\<close> on.
\<close>

fun jitteredBy :: "real \<Rightarrow> (nat \<Rightarrow> real) \<Rightarrow> nat \<Rightarrow> real \<times> real \<Rightarrow> pathspec \<Rightarrow> pathspec" where
  "jitteredBy jv r k pos [] = []"
| "jitteredBy jv r k pos (MoveTo x y # p) =
     MoveTo x y # jitteredBy jv r k (parseInt x, parseInt y) p"
| "jitteredBy jv r k pos (Hop H d # p) =
     LineTo (fst pos + of_int d + (r k * 2 - 1) * jv) (snd pos + (r (k + 1) * 2 - 1) * jv)
       # jitteredBy jv r (k + 2) (fst pos + of_int d, snd pos) p"
| "jitteredBy jv r k pos (Hop V d # p) =
     LineTo (fst pos + (r k * 2 - 1) * jv) (snd pos + of_int d + (r (k + 1) * 2 - 1) * jv)
       # jitteredBy jv r (k + 2) (fst pos, snd pos + of_int d) p"
| "jitteredBy jv r k pos (t # p) = t # jitteredBy jv r k pos p"

section \<open>Loops that rounding closes\<close>

text \<open>The unit step of a direction.\<close>

fun dx :: "direction \<Rightarrow> real" where
  "dx East = 1" | "dx West = - 1" | "dx South = 0" | "dx North = 0"

fun dy :: "direction \<Rightarrow> real" where
  "dy East = 0" | "dy West = 0" | "dy South = 1" | "dy North = - 1"



text \<open>The commands that move the pen inside a loop, and the arc that \<open>makePathSpecRound\<close>
  puts before a \<open>ClosePath\<close>.\<close>

definition drawing :: "seg \<Rightarrow> bool" where
  "drawing t \<longleftrightarrow> t \<noteq> ClosePath \<and> \<not> isMoveTo t"






section \<open>Compaction: helper lemmas\<close>

lemma mergeHops_None_iff: "mergeHops a b = None \<longleftrightarrow> kind a = None \<or> kind a \<noteq> kind b"
  by (cases a; cases b) auto

lemma mergeHops_Some_kind: "mergeHops a b = Some m \<Longrightarrow> kind m = kind a \<and> kind a = kind b"
  by (cases a; cases b) (auto split: if_splits)

lemma draw_Hop_Hop: "draw (Hop a (d1 + d2)) st = draw (Hop a d2) (draw (Hop a d1) st)"
  by (cases a; cases st; cases "fst st") auto

lemma mergeHops_draw: "mergeHops a b = Some m \<Longrightarrow> draw m st = draw b (draw a st)"
  by (cases a; cases b) (auto split: if_splits simp: draw_Hop_Hop)

lemma compactLoop_comp:
  "new \<noteq> [] \<Longrightarrow> compactLoop new rest = butlast new @ comp (last new) rest"
proof (induction rest arbitrary: new)
  case Nil
  then show ?case by simp
next
  case (Cons step rest)
  show ?case
  proof (cases "mergeHops (last new) step")
    case None
    with Cons show ?thesis by simp
  next
    case (Some m)
    with Cons show ?thesis by simp
  qed
qed

lemma compactPathSpec_comp: "compactPathSpec (t # ts) = comp t ts"
  by (simp add: compactPathSpec_def compactLoop_comp)

lemma comp_not_Nil: "comp p r \<noteq> []"
  by (induction r arbitrary: p) (auto split: option.splits)

lemma kind_hd_comp: "kind (hd (comp p r)) = kind p"
  by (induction r arbitrary: p) (auto split: option.splits dest: mergeHops_Some_kind)

lemma length_comp: "length (comp p r) \<le> Suc (length r)"
proof (induction r arbitrary: p)
  case Nil
  show ?case by simp
next
  case (Cons s r)
  show ?case
  proof (cases "mergeHops p s")
    case None
    then show ?thesis using Cons [of s] by simp
  next
    case (Some m)
    then show ?thesis using Cons [of m] by simp
  qed
qed

lemma replay_comp: "replay st (comp p r) = replay st (p # r)"
proof (induction r arbitrary: p st)
  case Nil
  show ?case by simp
next
  case (Cons s r)
  show ?case
  proof (cases "mergeHops p s")
    case None
    then show ?thesis using Cons [of "draw p st" s] by simp
  next
    case (Some m)
    then show ?thesis using Cons [of st m] by (simp add: mergeHops_draw)
  qed
qed

lemma vertices_Cons:
  "xs \<noteq> [] \<Longrightarrow> vertices st (p # xs) =
     (if kind p = None \<or> kind p \<noteq> kind (hd xs) then fst (draw p st) # vertices (draw p st) xs
      else vertices (draw p st) xs)"
  by (cases xs) (auto simp: mergeHops_None_iff)

lemma vertices_merged:
  assumes "mergeHops p s = Some m"
  shows "vertices st (m # r) = vertices (draw p st) (s # r)"
proof (cases r)
  case Nil
  then show ?thesis using assms by (simp add: mergeHops_draw)
next
  case (Cons u r')
  have k: "kind m = kind s" using assms by (auto dest: mergeHops_Some_kind)
  have "mergeHops m u = None \<longleftrightarrow> mergeHops s u = None"
    by (simp add: mergeHops_None_iff k)
  then show ?thesis using Cons mergeHops_draw [OF assms, of st] by simp
qed

lemma vertices_comp: "vertices st (comp p r) = vertices st (p # r)"
proof (induction r arbitrary: p st)
  case Nil
  show ?case by simp
next
  case (Cons s r)
  show ?case
  proof (cases "mergeHops p s")
    case None
    have "vertices st (p # comp s r) = vertices st (p # s # r)"
      using None Cons [of "draw p st" s]
      by (simp add: vertices_Cons comp_not_Nil kind_hd_comp mergeHops_None_iff)
    then show ?thesis using None by simp
  next
    case (Some m)
    then show ?thesis using Cons [of st m] vertices_merged [OF Some, of st r] by simp
  qed
qed

lemma compacted_comp: "compacted (comp p r)"
proof (induction r arbitrary: p)
  case Nil
  show ?case by simp
next
  case (Cons s r)
  show ?case
  proof (cases "mergeHops p s")
    case None
    obtain q r' where q: "comp s r = q # r'"
      using comp_not_Nil [of s r] by (cases "comp s r") auto
    have "kind q = kind s" using kind_hd_comp [of s r] q by simp
    then have "mergeHops p q = None" using None by (simp add: mergeHops_None_iff)
    then show ?thesis using None Cons [of s] q by simp
  next
    case (Some m)
    then show ?thesis using Cons [of m] by simp
  qed
qed

lemma comp_compacted: "compacted (p # r) \<Longrightarrow> comp p r = p # r"
  by (induction r arbitrary: p) auto

lemma comp_idem: "comp p r = q # r' \<Longrightarrow> comp q r' = q # r'"
  using compacted_comp [of p r] comp_compacted [of q r'] by simp

section \<open>Compaction: the claim\<close>

text \<open>
  C5. For every pathspec, \<open>compactPathSpec\<close> returns at most as many tokens as it was
  given; replaying the compacted pathspec ends with the pen where replaying the original
  does and visits the same polygon vertices; and compacting a compacted pathspec leaves it
  unchanged.
\<close>

theorem compactPathSpec_correct:
  "length (compactPathSpec p) \<le> length p
   \<and> replay st (compactPathSpec p) = replay st p
   \<and> vertices st (compactPathSpec p) = vertices st p
   \<and> compactPathSpec (compactPathSpec p) = compactPathSpec p"
proof (cases p)
  case Nil
  then show ?thesis by (simp add: compactPathSpec_def)
next
  case (Cons t ts)
  obtain q r' where q: "comp t ts = q # r'"
    using comp_not_Nil [of t ts] by (cases "comp t ts") auto
  have "compactPathSpec (compactPathSpec p) = compactPathSpec p"
    using Cons q comp_idem [OF q] by (simp add: compactPathSpec_comp)
  then show ?thesis
    using Cons length_comp [of t ts] replay_comp [of st t ts] vertices_comp [of st t ts]
    by (simp add: compactPathSpec_comp)
qed

section \<open>Bitmask: helper lemmas\<close>

lemma get_cell: "get b (of_int x) (of_int y) = Inr (cell b x y)"
proof -
  have "y * width b + x = \<lfloor>real_of_int y * real_of_int (width b) + real_of_int x\<rfloor>"
    by (metis floor_of_int of_int_add of_int_mult)
  then show ?thesis by (simp add: get_def cell_def isInteger_def)
qed

section \<open>Corner rounding: helper lemmas\<close>

lemma roundMerge_head:
  assumes "isMoveTo m"
  shows "\<exists>r'. roundMerge (m # r) = m # r'"
proof (cases "length (m # r) \<ge> 2")
  case False
  then show ?thesis by (simp add: roundMerge_def)
next
  case True
  then obtain t r0 where r: "r = t # r0" by (cases r) auto
  show ?thesis
  proof (cases r0)
    case Nil
    then show ?thesis using r assms
      by (cases m) (auto simp: roundMerge_def split: seg.splits)
  next
    case (Cons u r1)
    then show ?thesis using r
      by (auto simp: roundMerge_def Let_def split: seg.splits)
  qed
qed

lemma roundStep_head:
  assumes "isMoveTo m"
  shows "\<exists>r'. roundStep inner (m # r) c n = m # r'"
  using roundMerge_head [OF assms, of "r @ roundPair c n"]
  by (auto simp: roundStep_def)

lemma roundLoop_head:
  assumes "isMoveTo m" "\<forall>t \<in> set rest. \<not> isMoveTo t"
  shows "\<exists>r'. roundLoop inner (m # r) rest = Inr (m # r')"
  using assms(2)
proof (induction rest arbitrary: r)
  case Nil
  then show ?case by simp
next
  case (Cons c rest)
  obtain r1 where r1: "roundStep inner (m # r) c (nextOf rest) = m # r1"
    using roundStep_head [OF assms(1)] by blast
  have "roundLoop inner (m # r) (c # rest) = roundLoop inner (m # r1) rest"
    using Cons.prems r1 by (cases c) auto
  then show ?case using Cons by auto
qed

section \<open>Corner rounding: the start of a loop\<close>

text \<open>
  C7 (as the code has it). For every loop that starts with a \<open>MoveTo\<close> at whole
  coordinates followed by a hop and holds no further \<open>MoveTo\<close>, \<open>makePathSpecRound\<close>
  succeeds and its first token is the \<open>MoveTo\<close> moved by one half along the axis the
  first hop is on: the x coordinate for a horizontal first hop, the y coordinate for a
  vertical one.
\<close>

theorem makePathSpecRound_start:
  assumes "\<forall>t \<in> set rest. \<not> isMoveTo t"
  shows "\<exists>r. makePathSpecRound (MoveTo (of_int x) (of_int y) # Hop a d # rest) =
           Inr ((case a of H \<Rightarrow> MoveTo (of_int x + 1/2) (of_int y)
                         | V \<Rightarrow> MoveTo (of_int x) (of_int y + 1/2)) # r)"
proof -
  let ?m = "case a of H \<Rightarrow> MoveTo (of_int x + 1/2) (of_int y)
                    | V \<Rightarrow> MoveTo (of_int x) (of_int y + 1/2)"
  have s: "roundStart False (of_int x) (of_int y) (Hop a d) = (?m, a = V)"
    by (cases a) (simp_all add: parseInt_def)
  have m: "isMoveTo ?m" by (cases a) simp_all
  obtain r1 where r1: "roundStep (a = V) [?m] (Hop a d) (nextOf rest) = ?m # r1"
    using roundStep_head [OF m, of "a = V" "[]"] by blast
  show ?thesis
    using roundLoop_head [OF m assms, of "a = V" r1] s r1
    by (simp add: makePathSpecRound_def)
qed

theorem makePathSpecRound_start_witness:
  "makePathSpecRound [MoveTo 2 2, Hop V 1, Hop H 1, Hop V (-1), Hop H (-1), ClosePath] =
     Inr [MoveTo 2 (5/2), Arc False (1/2) (1/2), Arc False (1/2) (-1/2),
          Arc False (-1/2) (-1/2), Arc False (-1/2) (1/2), ClosePath]"
  using makePathSpecRound_start [of "[Hop H 1, Hop V (-1), Hop H (-1), ClosePath]" 2 2 V 1]
  by (simp add: makePathSpecRound_def roundStep_def roundPair_def roundMerge_def nextOf_def
      parseInt_def)

text \<open>
  C7 as stated asks for the shift on the other axis. The loop around one cell starts with
  a horizontal hop, and its y coordinate stays 2 while x becomes 2.5.
\<close>

theorem makePathSpecRound_shift_counterexample:
  "makePathSpecRound [MoveTo 2 2, Hop H 1, Hop V 1, Hop H (-1), Hop V (-1), ClosePath] =
     Inr [MoveTo (5/2) 2, Arc True (1/2) (1/2), Arc True (-1/2) (1/2),
          Arc True (-1/2) (-1/2), Arc True (1/2) (-1/2), ClosePath]
   \<and> MoveTo (5/2) 2 \<noteq> MoveTo 2 (2 + 1/2)"
  by (simp add: makePathSpecRound_def roundStep_def roundPair_def roundMerge_def nextOf_def
      parseInt_def)

section \<open>Bitmask.get\<close>

text \<open>
  C10. \<open>get\<close> with an x or y that is not a whole number throws, wherever the
  coordinates lie; with whole coordinates outside the grid it returns \<open>false\<close>.
\<close>

theorem get_non_integer:
  "(\<not> isInteger x \<or> \<not> isInteger y \<longrightarrow> get b x y = Inl NotInteger)
   \<and> (isInteger x \<and> isInteger y
        \<and> (x < 0 \<or> x \<ge> of_int (width b) \<or> y < 0 \<or> y \<ge> of_int (height b))
      \<longrightarrow> get b x y = Inr False)"
  by (simp add: get_def)

theorem get_non_integer_witness:
  "get \<lparr>width = 3, height = 3, array = replicate 9 False\<rparr> (1/2) 7 = Inl NotInteger
   \<and> get \<lparr>width = 3, height = 3, array = replicate 9 False\<rparr> 1 7 = Inr False"
  using get_non_integer [of "1/2" 7 "\<lparr>width = 3, height = 3, array = replicate 9 False\<rparr>"]
    get_non_integer [of 1 7 "\<lparr>width = 3, height = 3, array = replicate 9 False\<rparr>"]
  by (simp add: isInteger_def)

section \<open>The grid with one filled cell\<close>

lemma calculateShapeContour_centre:
  "calculateShapeContour centreGrid margin style =
     Inr \<lparr>pdpOuter = [], pdpInner = [],
          dots = [MoveTo (of_int (1 + margin)) (of_int (1 + margin)),
                  Hop H 1, Hop V 1, Hop H (- 1), Hop V (- 1), ClosePath],
          shapes = []\<rparr>"
  by code_simp

lemma centreGrid_size: "width centreGrid = 3" "height centreGrid = 3"
  by (simp_all add: centreGrid_def)

text \<open>
  C8 (as the code has it). For the three by three grid with only the centre cell filled
  and the style \<open>basic\<close>, the shapes are empty and the dots are the one loop around the
  cell (1, 1) moved by the margin: with margin 1 it is \<open>M2 2 h1 v1 h-1 v-1 z\<close>.
\<close>

theorem centre_dot_basic:
  "calculateContour toPrecision centreGrid margin ''basic'' =
     Inr \<lparr>pdpOuter = [], pdpInner = [],
          dots = [MoveTo (of_int (1 + margin)) (of_int (1 + margin)),
                  Hop H 1, Hop V 1, Hop H (- 1), Hop V (- 1), ClosePath],
          shapes = []\<rparr>"
  by (simp add: calculateContour_def buildPdp_def
      calculateShapeContour_centre centreGrid_size roundContour_def compactContour_def
      compactPathSpec_def Contour_def)

text \<open>C8 as stated has the loop start at \<open>M1 1\<close>, which is the cell without the margin.\<close>

theorem centre_dot_counterexample:
  "calculateContour id centreGrid 1 ''basic'' =
     Inr \<lparr>pdpOuter = [], pdpInner = [],
          dots = [MoveTo 2 2, Hop H 1, Hop V 1, Hop H (- 1), Hop V (- 1), ClosePath],
          shapes = []\<rparr>
   \<and> [MoveTo 2 2, Hop H 1, Hop V 1, Hop H (- 1), Hop V (- 1), ClosePath]
       \<noteq> [MoveTo 1 1, Hop H 1, Hop V 1, Hop H (- 1), Hop V (- 1), ClosePath]"
  by (simp add: calculateContour_def buildPdp_def
      calculateShapeContour_centre centreGrid_size roundContour_def compactContour_def
      compactPathSpec_def Contour_def)

section \<open>Loop extraction: the dropped hop\<close>

text \<open>
  C6 (as the code has it). A traced path of a \<open>MoveTo\<close> and at least two hops loses its
  final hop before \<open>ClosePath\<close> is appended exactly when its number of tokens is even,
  that is when its number of hops is odd; with an even number of hops no hop is dropped.
\<close>

theorem closeLoop_parity:
  assumes "length hops \<ge> 2"
  shows "closeLoop (MoveTo x y # hops) =
           Some (MoveTo x y # (if odd (length hops) then butlast hops else hops) @ [ClosePath])"
proof -
  have ne: "hops \<noteq> []" using assms by auto
  have "Suc (length hops) mod 2 = 0 \<longleftrightarrow> odd (length hops)" by presburger
  then show ?thesis using assms ne by (simp add: closeLoop_def)
qed

theorem closeLoop_parity_witness:
  "closeLoop [MoveTo 2 2, Hop H 1, Hop V 1, Hop H (- 1), Hop V (- 1), Hop H 1] =
     Some [MoveTo 2 2, Hop H 1, Hop V 1, Hop H (- 1), Hop V (- 1), ClosePath]"
  using closeLoop_parity [of "[Hop H 1, Hop V 1, Hop H (- 1), Hop V (- 1), Hop H 1]" 2 2]
  by simp

text \<open>
  C6 as stated has the parity of the hop count the other way round. The walk around the
  single cell accumulates five hops and loses the fifth; a path of four hops loses none.
\<close>

theorem closeLoop_even_counterexample:
  "(case buildCorners centreGrid of
      Inl e \<Rightarrow> None
    | Inr cs \<Rightarrow>
        (case walk2 4 cs 1 1 East [MoveTo 2 2] of
           Inl e \<Rightarrow> None
         | Inr (cs', newPathSpec) \<Rightarrow> Some (newPathSpec, closeLoop newPathSpec)))
   = Some ([MoveTo 2 2, Hop H 1, Hop V 1, Hop H (- 1), Hop V (- 1), Hop H 1],
           Some [MoveTo 2 2, Hop H 1, Hop V 1, Hop H (- 1), Hop V (- 1), ClosePath])
   \<and> closeLoop [MoveTo 2 2, Hop V 1, Hop H 1, Hop V (- 1), Hop H (- 1)] =
       Some [MoveTo 2 2, Hop V 1, Hop H 1, Hop V (- 1), Hop H (- 1), ClosePath]"
  by code_simp

section \<open>The mosaic style\<close>

lemma PRNG_next_1: "PRNG_next (Suc 0) = (1103527590 / 2147483647, 1103527590)"
  by (simp add: PRNG_next_def toDouble_def PRNG_a_def PRNG_c_def PRNG_m_def)

lemma PRNG_next_2: "PRNG_next 1103527590 = (377401600 / 2147483647, 377401600)"
  by (simp add: PRNG_next_def toDouble_def PRNG_a_def PRNG_c_def PRNG_m_def Let_def bitlen.simps)

lemma PRNG_next_range: "0 \<le> fst (PRNG_next g) \<and> fst (PRNG_next g) \<le> 1"
proof -
  let ?s = "toDouble (toDouble (PRNG_a * g) + PRNG_c) mod PRNG_m"
  have "?s < PRNG_m" by (simp add: PRNG_m_def)
  then have "real ?s \<le> real (PRNG_m - 1)" by (simp add: PRNG_m_def)
  moreover have "0 < real (PRNG_m - 1)" by (simp add: PRNG_m_def)
  ultimately have "real ?s / real (PRNG_m - 1) \<le> 1" by (simp add: divide_le_eq)
  then show ?thesis by (simp add: PRNG_next_def Let_def)
qed

lemma mosaicAngle_bound:
  assumes "0 \<le> r" "r \<le> 1"
  shows "\<bar>mosaicAngle r\<bar> \<le> pi * (3/100)"
proof -
  have "\<bar>r * 2 - 1\<bar> \<le> 1" using assms by (simp add: abs_le_iff)
  then have "\<bar>r * 2 - 1\<bar> * (pi * (3/100)) \<le> 1 * (pi * (3/100))"
    by (intro mult_right_mono) simp_all
  then show ?thesis by (simp add: mosaicAngle_def maxAngle_def abs_mult)
qed

lemma degrees_mosaicAngle: "degrees (mosaicAngle r) = (r * 2 - 1) * (27/5)"
  by (simp add: degrees_def mosaicAngle_def maxAngle_def)

lemma mosaicSquares_Nil: "mosaicSquares tp b margin []"
  unfolding mosaicSquares_def by (rule exI [of _ "[]"]) simp

lemma mosaicSquares_append:
  assumes "mosaicSquares tp b margin p" "cell b x y"
  shows "mosaicSquares tp b margin
           (p @ mosaicPath tp x y margin (mosaicAngle (fst (PRNG_next g))))"
proof -
  obtain cells where c: "p = concat (map (\<lambda>(x, y, g).
        mosaicPath tp x y margin (mosaicAngle (fst (PRNG_next g)))) cells)"
      "\<forall>(x, y, g) \<in> set cells. cell b x y"
    using assms(1) unfolding mosaicSquares_def by blast
  show ?thesis
    unfolding mosaicSquares_def
    by (rule exI [of _ "cells @ [(x, y, g)]"]) (use c assms(2) in auto)
qed

lemma cellMark_mosaic:
  assumes "mosaicInv tp b margin st"
  shows "mosaicInv tp b margin (cellMark tp b margin ''mosaic'' y x st)"
proof -
  obtain g c where st: "st = (g, c)" by (cases st)
  obtain r g' where n: "PRNG_next g = (r, g')" by (cases "PRNG_next g")
  have r: "r = fst (PRNG_next g)" using n by simp
  let ?p = "mosaicPath tp x y margin (mosaicAngle r)"
  have inv: "mosaicSquares tp b margin (dots c)" "mosaicSquares tp b margin (shapes c)"
    "pdpOuter c = []" "pdpInner c = []"
    using assms by (simp_all add: mosaicInv_def st)
  consider (skip) "inPdp b margin x y \<or> \<not> cell b x y"
    | (dot) "\<not> inPdp b margin x y" "cell b x y"
        "\<not> cell b (x - 1) y \<and> \<not> cell b (x + 1) y \<and> \<not> cell b x (y - 1) \<and> \<not> cell b x (y + 1)"
    | (shape) "\<not> inPdp b margin x y" "cell b x y"
        "\<not> (\<not> cell b (x - 1) y \<and> \<not> cell b (x + 1) y \<and> \<not> cell b x (y - 1) \<and> \<not> cell b x (y + 1))"
    by blast
  then show ?thesis
  proof cases
    case skip
    then have "cellMark tp b margin ''mosaic'' y x st = st"
      by (auto simp: cellMark_def st)
    then show ?thesis using assms by simp
  next
    case dot
    then have "cellMark tp b margin ''mosaic'' y x st = (g', c\<lparr>dots := dots c @ ?p\<rparr>)"
      by (simp add: cellMark_def st n Let_def)
    then show ?thesis
      using inv mosaicSquares_append [OF inv(1) dot(2), of g] by (simp add: mosaicInv_def r)
  next
    case shape
    then have "cellMark tp b margin ''mosaic'' y x st = (g', c\<lparr>shapes := shapes c @ ?p\<rparr>)"
      by (auto simp: cellMark_def st n Let_def)
    then show ?thesis
      using inv mosaicSquares_append [OF inv(2) shape(2), of g] by (simp add: mosaicInv_def r)
  qed
qed

lemma fold_inv:
  assumes "P s" "\<And>x s. P s \<Longrightarrow> P (f x s)"
  shows "P (fold f xs s)"
  using assms(1) by (induction xs arbitrary: s) (auto intro: assms(2))

lemma mosaic_contour:
  "\<exists>c. calculateDotsOrMosaicContour tp b margin ''mosaic'' = Inr c
     \<and> mosaicSquares tp b margin (dots c) \<and> mosaicSquares tp b margin (shapes c)
     \<and> pdpOuter c = [] \<and> pdpInner c = []"
proof -
  have row: "mosaicInv tp b margin (fold (cellMark tp b margin ''mosaic'' y) xs st)"
    if "mosaicInv tp b margin st" for y xs st
    using that by (rule fold_inv [where P = "mosaicInv tp b margin"]) (rule cellMark_mosaic)
  have "mosaicInv tp b margin (PRNG 1, Contour)"
    by (simp add: mosaicInv_def Contour_def mosaicSquares_Nil)
  then have "mosaicInv tp b margin
      (fold (\<lambda>y. fold (cellMark tp b margin ''mosaic'' y) [0..width b - 1])
         [0..height b - 1] (PRNG 1, Contour))"
    by (rule fold_inv [where P = "mosaicInv tp b margin"]) (rule row)
  then show ?thesis
    by (simp add: calculateDotsOrMosaicContour_def mosaicInv_def)
qed

lemma mergeHops_second_None: "kind t = None \<Longrightarrow> mergeHops s t = None"
  by (cases s; cases t) auto

lemma compactLoop_no_hops':
  "\<forall>t \<in> set p. kind t = None \<Longrightarrow> compactLoop new p = new @ p"
  by (induction p arbitrary: new) (auto simp: mergeHops_second_None)

lemma compactPathSpec_no_hops:
  "\<forall>t \<in> set p. kind t = None \<Longrightarrow> compactPathSpec p = p"
  by (cases p) (auto simp: compactPathSpec_def compactLoop_no_hops')

lemma mosaicPath_no_hops: "\<forall>t \<in> set (mosaicPath tp x y margin a). kind t = None"
  by (simp add: mosaicPath_def Let_def)

lemma mosaicSquares_no_hops:
  "mosaicSquares tp b margin p \<Longrightarrow> \<forall>t \<in> set p. kind t = None"
  using mosaicPath_no_hops by (fastforce simp: mosaicSquares_def)

lemma mosaicPath_squareLoop:
  "squareLoop (tp (9/10 * cos a), tp (9/10 * sin a)) (mosaicPath tp x y margin a)"
  by (simp add: squareLoop_def mosaicPath_def mosaicSize_def rot90_def Let_def)

lemma mosaicPath_mosaicLoop:
  "mosaicLoop tp (mosaicPath tp x y margin (mosaicAngle (fst (PRNG_next g))))"
proof -
  let ?a = "(fst (PRNG_next g) * 2 - 1) * (pi * (3/100))"
  have r: "0 \<le> fst (PRNG_next g)" "fst (PRNG_next g) \<le> 1"
    using PRNG_next_range [of g] by simp_all
  have a: "mosaicAngle (fst (PRNG_next g)) = ?a" by (simp add: mosaicAngle_def maxAngle_def)
  have "\<bar>?a\<bar> \<le> pi * (3/100)" using mosaicAngle_bound [OF r] by (simp add: a)
  then have "\<bar>?a\<bar> * (180 / pi) \<le> pi * (3/100) * (180 / pi)"
    by (intro mult_right_mono) simp_all
  then have d: "\<bar>?a * 180 / pi\<bar> \<le> 27/5" by (simp add: abs_mult)
  have sq: "squareLoop (tp (9/10 * cos ?a), tp (9/10 * sin ?a)) (mosaicPath tp x y margin ?a)"
    by (rule mosaicPath_squareLoop)
  show ?thesis
    unfolding mosaicLoop_def a Let_def using d sq by (intro exI [of _ g] conjI)
qed

lemma mosaicSquares_loops:
  assumes "mosaicSquares tp b margin p"
  shows "mosaicLoops tp p"
proof -
  obtain cells where c: "p = concat (map (\<lambda>(x, y, g).
        mosaicPath tp x y margin (mosaicAngle (fst (PRNG_next g)))) cells)"
    using assms unfolding mosaicSquares_def by blast
  show ?thesis
    unfolding mosaicLoops_def c
    by (rule exI [of _ "map (\<lambda>(x, y, g).
        mosaicPath tp x y margin (mosaicAngle (fst (PRNG_next g)))) cells"])
      (auto simp: mosaicPath_mosaicLoop)
qed

lemma sidesOf_append: "sidesOf (xs @ ys) = sidesOf xs @ sidesOf ys"
  by (induction xs rule: sidesOf.induct) simp_all

lemma sidesOf_concat: "sidesOf (concat ls) = concat (map sidesOf ls)"
  by (induction ls) (simp_all add: sidesOf_append)

lemma squareLoop_sides:
  assumes "squareLoop v l" "s \<in> set (sidesOf l)"
  shows "(fst s)\<^sup>2 + (snd s)\<^sup>2 = (fst v)\<^sup>2 + (snd v)\<^sup>2"
  using assms by (auto simp: squareLoop_def rot90_def)

lemma mosaicLoop_sides:
  assumes "mosaicLoop id l" "s \<in> set (sidesOf l)"
  shows "(fst s)\<^sup>2 + (snd s)\<^sup>2 = (9/10)\<^sup>2"
proof -
  obtain a where a: "squareLoop (9/10 * cos a, 9/10 * sin a) l"
    using assms(1) by (auto simp: mosaicLoop_def Let_def)
  have "(9/10 * cos a)\<^sup>2 + (9/10 * sin a)\<^sup>2 = (9/10)\<^sup>2 * ((cos a)\<^sup>2 + (sin a)\<^sup>2)"
    unfolding power_mult_distrib by (rule distrib_left [symmetric])
  also have "\<dots> = (9/10)\<^sup>2" unfolding sin_cos_squared_add2 by simp
  finally have n: "(9/10 * cos a)\<^sup>2 + (9/10 * sin a)\<^sup>2 = (9/10)\<^sup>2" .
  have "(fst s)\<^sup>2 + (snd s)\<^sup>2 = (fst (9/10 * cos a, 9/10 * sin a))\<^sup>2
      + (snd (9/10 * cos a, 9/10 * sin a))\<^sup>2"
    using a assms(2) by (rule squareLoop_sides)
  then show ?thesis unfolding fst_conv snd_conv n .
qed

lemma mosaicLoops_sides:
  assumes "mosaicLoops id p" "s \<in> set (sidesOf p)"
  shows "(fst s)\<^sup>2 + (snd s)\<^sup>2 = (9/10)\<^sup>2"
proof -
  obtain ls where ls: "p = concat ls" "\<forall>l \<in> set ls. mosaicLoop id l"
    using assms(1) unfolding mosaicLoops_def by blast
  obtain l where "l \<in> set ls" "s \<in> set (sidesOf l)"
    using assms(2) by (auto simp: ls(1) sidesOf_concat)
  then show ?thesis using ls(2) mosaicLoop_sides by blast
qed

lemma count_mosaicPath: "count_list (mosaicPath tp x y margin a) ClosePath = 1"
  by (simp add: mosaicPath_def Let_def)

lemma cellMark_count:
  "loopCount (snd (cellMark tp b margin ''mosaic'' y x st)) =
     loopCount (snd st) + (if \<not> inPdp b margin x y \<and> cell b x y then 1 else 0)"
proof -
  obtain g c where st: "st = (g, c)" by (cases st)
  obtain r g' where n: "PRNG_next g = (r, g')" by (cases "PRNG_next g")
  show ?thesis
    by (simp add: cellMark_def st n Let_def loopCount_def count_mosaicPath)
qed

lemma fold_count:
  fixes k :: "'s \<Rightarrow> nat"
  assumes "\<And>x st. k (f x st) = k st + (if P x then 1 else 0)"
  shows "k (fold f xs st) = k st + length (filter P xs)"
  by (induction xs arbitrary: st) (simp_all add: assms)

lemma mosaic_count:
  "\<exists>c. calculateDotsOrMosaicContour tp b margin ''mosaic'' = Inr c
     \<and> loopCount c = length (mosaicCells b margin)"
proof -
  let ?k = "\<lambda>st. loopCount (snd st)"
  let ?P = "\<lambda>y x. \<not> inPdp b margin x y \<and> cell b x y"
  have row: "?k (fold (cellMark tp b margin ''mosaic'' y) xs st)
      = ?k st + length (filter (?P y) xs)" for y xs st
    by (rule fold_count) (rule cellMark_count)
  have all: "?k (fold (\<lambda>y. fold (cellMark tp b margin ''mosaic'' y) xs) ys st)
      = ?k st + length (concat (map (\<lambda>y. map (\<lambda>x. (x, y)) (filter (?P y) xs)) ys))" for xs ys st
    by (induction ys arbitrary: st) (simp_all add: row)
  have "?k (PRNG 1, Contour) = 0" by (simp add: loopCount_def Contour_def)
  then show ?thesis
    using all [of "[0..width b - 1]" "[0..height b - 1]" "(PRNG 1, Contour)"]
    by (simp add: calculateDotsOrMosaicContour_def mosaicCells_def)
qed

text \<open>
  C9 (as the code has it). In the style \<open>mosaic\<close> the contour computation succeeds, and
  its dots and its shapes are sequences of squares, one for every filled cell outside the
  areas of the position detection patterns: each is a loop of four relative lines,
  every side the one before it turned by a quarter of a turn, whose first side is the vector
  \<open>(0.9 cos a, 0.9 sin a)\<close> as \<^verbatim>\<open>toPrecision(3)\<close> writes it, for an angle \<open>a\<close> drawn from
  the generator and at most \<open>0.03 \<pi>\<close> radians, that is 5.4 degrees, in absolute value.
  With the coordinates written exactly, every side of every square has length 0.9.
\<close>

theorem mosaic_square_angle:
  "(\<exists>c. calculateContour toPrecision b margin ''mosaic'' = Inr c
       \<and> mosaicLoops toPrecision (dots c) \<and> mosaicLoops toPrecision (shapes c)
       \<and> loopCount c = length (mosaicCells b margin))
   \<and> (\<exists>c. calculateContour id b margin ''mosaic'' = Inr c
       \<and> (\<forall>s \<in> set (sidesOf (dots c) @ sidesOf (shapes c)).
             (fst s)\<^sup>2 + (snd s)\<^sup>2 = (9/10)\<^sup>2))"
proof -
  have one: "\<exists>c. calculateContour tp b margin ''mosaic'' = Inr c
       \<and> mosaicLoops tp (dots c) \<and> mosaicLoops tp (shapes c)
       \<and> loopCount c = length (mosaicCells b margin)" for tp
  proof -
    obtain c where c: "calculateDotsOrMosaicContour tp b margin ''mosaic'' = Inr c"
      "mosaicSquares tp b margin (dots c)" "mosaicSquares tp b margin (shapes c)"
      using mosaic_contour by blast
    have n: "loopCount c = length (mosaicCells b margin)"
      using mosaic_count [of tp b margin] c(1) by simp
    have p: "buildPdp b margin ''mosaic'' Contour = Inr (Contour
        \<lparr>pdpOuter := (if width b > 16 \<and> height b > 16
                        then concat (map pdpOuterAt (pdpOffsets b margin)) else []),
         pdpInner := (if width b > 16 \<and> height b > 16
                        then concat (map pdpInnerAt (pdpOffsets b margin)) else [])\<rparr>)"
      by (simp add: buildPdp_def Contour_def)
    have e: "calculateContour tp b margin ''mosaic'' =
        Inr (compactContour (Contour
        \<lparr>pdpOuter := (if width b > 16 \<and> height b > 16
                        then concat (map pdpOuterAt (pdpOffsets b margin)) else []),
         pdpInner := (if width b > 16 \<and> height b > 16
                        then concat (map pdpInnerAt (pdpOffsets b margin)) else []),
         dots := dots c, shapes := shapes c\<rparr>))"
      by (simp add: calculateContour_def p c(1) roundContour_def)
    have d: "compactPathSpec (dots c) = dots c" "compactPathSpec (shapes c) = shapes c"
      using c(2,3) by (simp_all add: compactPathSpec_no_hops mosaicSquares_no_hops)
    show ?thesis
      using c(2,3) n by (simp add: e compactContour_def d mosaicSquares_loops loopCount_def)
  qed
  obtain c where c: "calculateContour id b margin ''mosaic'' = Inr c"
      "mosaicLoops id (dots c)" "mosaicLoops id (shapes c)"
    using one [of id] by blast
  have "\<forall>s \<in> set (sidesOf (dots c) @ sidesOf (shapes c)). (fst s)\<^sup>2 + (snd s)\<^sup>2 = (9/10)\<^sup>2"
    using mosaicLoops_sides [OF c(2)] mosaicLoops_sides [OF c(3)] by auto
  then show ?thesis using one [of toPrecision] c(1) by blast
qed

lemma mosaic_twoCells:
  "calculateContour tp twoCells 1 ''mosaic'' =
     Inr \<lparr>pdpOuter = [], pdpInner = [],
          dots = mosaicPath tp 0 0 1 (mosaicAngle (1103527590 / 2147483647))
               @ mosaicPath tp 2 0 1 (mosaicAngle (377401600 / 2147483647)),
          shapes = []\<rparr>"
proof -
  have u: "[0..2] = [0, 1, 2::int]" "[0..0] = [0::int]"
    by (simp_all add: upto.simps)
  have "calculateDotsOrMosaicContour tp twoCells 1 ''mosaic'' =
     Inr \<lparr>pdpOuter = [], pdpInner = [],
          dots = mosaicPath tp 0 0 1 (mosaicAngle (1103527590 / 2147483647))
               @ mosaicPath tp 2 0 1 (mosaicAngle (377401600 / 2147483647)),
          shapes = []\<rparr>"
    by (simp add: calculateDotsOrMosaicContour_def twoCells_def cellMark_def cell_def inPdp_def
      PRNG_def PRNG_next_1 PRNG_next_2 Contour_def u)
  moreover have "compactPathSpec (mosaicPath tp 0 0 1 (mosaicAngle (1103527590 / 2147483647))
               @ mosaicPath tp 2 0 1 (mosaicAngle (377401600 / 2147483647)))
     = mosaicPath tp 0 0 1 (mosaicAngle (1103527590 / 2147483647))
               @ mosaicPath tp 2 0 1 (mosaicAngle (377401600 / 2147483647))"
    using mosaicPath_no_hops by (intro compactPathSpec_no_hops) auto
  ultimately show ?thesis
    by (simp add: calculateContour_def buildPdp_def roundContour_def
        compactContour_def Contour_def twoCells_def compactPathSpec_def)
qed

text \<open>The grid with two filled cells.\<close>

theorem mosaic_square_angle_witness:
  "(\<exists>c. calculateContour id twoCells 1 ''mosaic'' = Inr c
       \<and> mosaicLoops id (dots c) \<and> mosaicLoops id (shapes c)
       \<and> loopCount c = length (mosaicCells twoCells 1))
   \<and> (\<exists>c. calculateContour id twoCells 1 ''mosaic'' = Inr c
       \<and> (\<forall>s \<in> set (sidesOf (dots c) @ sidesOf (shapes c)).
             (fst s)\<^sup>2 + (snd s)\<^sup>2 = (9/10)\<^sup>2))"
  by (rule mosaic_square_angle)

text \<open>
  C9 as stated bounds the angle by about 1.7 degrees. The second filled cell of a grid
  takes the second draw of the generator seeded with 1, and its square is turned by more
  than 3 degrees.
\<close>

theorem mosaic_angle_counterexample:
  "calculateContour id twoCells 1 ''mosaic'' =
     Inr \<lparr>pdpOuter = [], pdpInner = [],
          dots = mosaicPath id 0 0 1 (mosaicAngle (1103527590 / 2147483647))
               @ mosaicPath id 2 0 1 (mosaicAngle (377401600 / 2147483647)),
          shapes = []\<rparr>
   \<and> \<bar>degrees (mosaicAngle (377401600 / 2147483647))\<bar> > 3"
  by (simp add: mosaic_twoCells degrees_mosaicAngle)

section \<open>calculateShapeContour: helper lemmas\<close>

lemma succStoredD:
  "succStored b cs fr \<Longrightarrow> inGrid b s \<Longrightarrow> look b cs s \<noteq> None \<Longrightarrow>
     look b cs (step b s) \<noteq> None \<or> fr = Some (step b s)"
  unfolding succStored_def by blast

lemma soundD:
  "sound b cs \<Longrightarrow> inGrid b (x, y, d) \<Longrightarrow> look b cs (x, y, d) = Some v \<Longrightarrow>
     ok b (x, y, d) \<and> (\<exists>d'. turn b x y d = Some (v, d'))"
  unfolding sound_def by blast

lemma cell_inside: "cell b x y \<Longrightarrow> 0 \<le> x \<and> x < width b \<and> 0 \<le> y \<and> y < height b"
  by (auto simp: cell_def split: if_splits)

lemma ok_inGrid: "ok b s \<Longrightarrow> inGrid b s"
proof -
  obtain x y d where s: "s = (x, y, d)" by (cases s)
  assume "ok b s"
  then show ?thesis
    unfolding s ok_def by (cases d) (auto dest!: cell_inside)
qed

lemma turn_ok:
  assumes "ok b (x, y, d)"
  shows "\<exists>d'. turn b x y d = Some (ahead d' x y, d')
              \<and> legit b (fst (ahead d' x y), snd (ahead d' x y), d')"
  using assms unfolding ok_def by (cases d) auto

lemma step_ok:
  assumes "ok b (x, y, d)"
  obtains d' where "turn b x y d = Some (ahead d' x y, d')"
    "step b (x, y, d) = (fst (ahead d' x y), snd (ahead d' x y), d')"
    "legit b (step b (x, y, d))"
proof -
  obtain d' where d: "turn b x y d = Some (ahead d' x y, d')"
    "legit b (fst (ahead d' x y), snd (ahead d' x y), d')"
    using turn_ok [OF assms] by blast
  then have "step b (x, y, d) = (fst (ahead d' x y), snd (ahead d' x y), d')"
    by (simp add: step.simps)
  then show ?thesis using that d by simp
qed

lemma legit_step: "ok b s \<Longrightarrow> legit b (step b s)"
  by (cases s) (auto elim: step_ok)

text \<open>The index of a corner of the grid is one of the array, and no other corner of the
  grid has it.\<close>

lemma index_bounds:
  assumes "0 \<le> x" "x \<le> w" "0 \<le> y" "y \<le> h"
  shows "0 \<le> y * (w + 1) + x" "nat (y * (w + 1) + x) < nat (w + 1) * nat (h + 1)"
    "y * (w + 1) + x < int (nat (w + 1) * nat (h + 1))"
proof -
  have w: "0 \<le> w" and h: "0 \<le> h" using assms by auto
  show "0 \<le> y * (w + 1) + x" using assms by simp
  have "y * (w + 1) \<le> h * (w + 1)" using assms by (intro mult_right_mono) auto
  then have "y * (w + 1) + x < (w + 1) * (h + 1)" using assms by (simp add: algebra_simps)
  moreover have "int (nat (w + 1) * nat (h + 1)) = (w + 1) * (h + 1)"
    using w h by (simp add: nat_mult_distrib)
  ultimately show "y * (w + 1) + x < int (nat (w + 1) * nat (h + 1))" by simp
  then show "nat (y * (w + 1) + x) < nat (w + 1) * nat (h + 1)"
    using assms by (simp add: nat_less_iff)
qed

lemma index_inj:
  assumes "0 \<le> x" "x \<le> w" "0 \<le> x'" "x' \<le> w" "y * (w + 1) + x = y' * (w + 1) + x'"
  shows "x = x' \<and> y = (y'::int)"
proof -
  have m: "(k * (w + 1) + a) mod (w + 1) = a" if "0 \<le> a" "a \<le> w" for k a
  proof -
    have "(k * (w + 1) + a) mod (w + 1) = a mod (w + 1)" by (rule mod_mult_self3)
    also have "\<dots> = a" using that by (intro mod_pos_pos_trivial) auto
    finally show ?thesis .
  qed
  have "(y * (w + 1) + x) mod (w + 1) = x" by (rule m [OF assms(1,2)])
  moreover have "(y' * (w + 1) + x') mod (w + 1) = x'" by (rule m [OF assms(3,4)])
  ultimately have x: "x = x'" using assms(5) by metis
  then have "y * (w + 1) = y' * (w + 1)" using assms(5) by simp
  then show ?thesis using x assms(1,2) by simp
qed

lemma cornerAt_inGrid:
  assumes "sized b cs" "inGrid b (x, y, d)"
  shows "cornerAt cs (width b + 1) x y = Some (cs ! nat (y * (width b + 1) + x))"
  using assms index_bounds [of x "width b" y "height b"]
  by (simp add: cornerAt_def sized_def Let_def)

lemma look_update:
  assumes "sized b cs" "inGrid b (x, y, d)" "inGrid b s"
  shows "look b (cornerSet cs (width b + 1) x y
                  (AList.update d v (cs ! nat (y * (width b + 1) + x)))) s
         = (if s = (x, y, d) then Some v else look b cs s)"
proof -
  obtain x' y' d' where s: "s = (x', y', d')" by (cases s)
  let ?w = "width b + 1"
  let ?cs = "cornerSet cs ?w x y (AList.update d v (cs ! nat (y * ?w + x)))"
  have sz: "sized b ?cs" using assms(1) by (simp add: sized_def cornerSet_def)
  have i: "nat (y * ?w + x) < length cs" "0 \<le> y * ?w + x"
    using assms(1,2) index_bounds [of x "width b" y "height b"] by (simp_all add: sized_def)
  have i': "nat (y' * ?w + x') < length cs" "0 \<le> y' * ?w + x'"
    using assms(1,3) index_bounds [of x' "width b" y' "height b"] by (simp_all add: sized_def s)
  show ?thesis
  proof (cases "x' = x \<and> y' = y")
    case True
    then show ?thesis
      using i cornerAt_inGrid [OF sz assms(2)] cornerAt_inGrid [OF assms(1,2)]
      by (simp add: s cornerSet_def AList.update_conv' look.simps)
  next
    case False
    then have "y' * ?w + x' \<noteq> y * ?w + x"
      using index_inj [of x' "width b" x y' y] assms(2,3) by (auto simp: s)
    then have "nat (y' * ?w + x') \<noteq> nat (y * ?w + x)" using i i' by simp
    then show ?thesis
      using False i i' cornerAt_inGrid [OF sz, of x' y' d'] cornerAt_inGrid [OF assms(1), of x' y' d']
        assms(3)
      by (auto simp: s cornerSet_def look.simps)
  qed
qed

lemma look_delete:
  assumes "sized b cs" "inGrid b (x, y, d)" "inGrid b s"
  shows "look b (cornerSet cs (width b + 1) x y
                  (AList.delete d (cs ! nat (y * (width b + 1) + x)))) s
         = (if s = (x, y, d) then None else look b cs s)"
proof -
  obtain x' y' d' where s: "s = (x', y', d')" by (cases s)
  let ?w = "width b + 1"
  let ?cs = "cornerSet cs ?w x y (AList.delete d (cs ! nat (y * ?w + x)))"
  have sz: "sized b ?cs" using assms(1) by (simp add: sized_def cornerSet_def)
  have i: "nat (y * ?w + x) < length cs" "0 \<le> y * ?w + x"
    using assms(1,2) index_bounds [of x "width b" y "height b"] by (simp_all add: sized_def)
  have i': "nat (y' * ?w + x') < length cs" "0 \<le> y' * ?w + x'"
    using assms(1,3) index_bounds [of x' "width b" y' "height b"] by (simp_all add: sized_def s)
  show ?thesis
  proof (cases "x' = x \<and> y' = y")
    case True
    then show ?thesis
      using i cornerAt_inGrid [OF sz assms(2)] cornerAt_inGrid [OF assms(1,2)]
      by (simp add: s cornerSet_def AList.delete_conv' look.simps)
  next
    case False
    then have "y' * ?w + x' \<noteq> y * ?w + x"
      using index_inj [of x' "width b" x y' y] assms(2,3) by (auto simp: s)
    then have "nat (y' * ?w + x') \<noteq> nat (y * ?w + x)" using i i' by simp
    then show ?thesis
      using False i i' cornerAt_inGrid [OF sz, of x' y' d'] cornerAt_inGrid [OF assms(1), of x' y' d']
        assms(3)
      by (auto simp: s cornerSet_def look.simps)
  qed
qed

subsection \<open>The first pass\<close>

lemma forEach_inv:
  assumes "I s" "\<And>x s. x \<in> set xs \<Longrightarrow> I s \<Longrightarrow> \<exists>s'. f x s = Inr s' \<and> I s'"
  shows "\<exists>s'. forEach f xs s = Inr s' \<and> I s'"
  using assms
proof (induction xs arbitrary: s)
  case Nil
  then show ?case by simp
next
  case (Cons x xs)
  obtain s1 where s1: "f x s = Inr s1" "I s1" using Cons.prems by fastforce
  have "\<exists>s'. forEach f xs s1 = Inr s' \<and> I s'"
    using Cons.IH [OF s1(2)] Cons.prems(2) by simp
  then show ?case using s1 by simp
qed

lemma sound_look_ok: "sound b cs \<Longrightarrow> inGrid b s \<Longrightarrow> look b cs s \<noteq> None \<Longrightarrow> ok b s"
  by (cases s) (auto dest: soundD)

lemma walk1_inv:
  assumes "sound b cs" "succStored b cs (Some (x, y, d))" "ok b (x, y, d)"
  shows "\<exists>cs'. walk1 b cs x y d = Inr cs' \<and> sound b cs' \<and> succStored b cs' None"
  using assms
proof (induction b cs x y d rule: walk1.induct)
  case (1 b cs x y d)
  let ?w = "width b + 1"
  let ?es = "cs ! nat (y * ?w + x)"
  have g: "inGrid b (x, y, d)" using "1.prems"(3) by (rule ok_inGrid)
  have sz: "sized b cs" using "1.prems"(1) by (simp add: sound_def)
  have ca: "cornerAt cs ?w x y = Some ?es" using sz g by (rule cornerAt_inGrid)
  show ?case
  proof (cases "map_of ?es d")
    case (Some v)
    have w: "walk1 b cs x y d = Inr cs" by (subst walk1.simps) (simp add: ca Some)
    have "succStored b cs None"
      unfolding succStored_def
    proof (intro allI impI)
      fix s assume s: "inGrid b s" "look b cs s \<noteq> None"
      then have "look b cs (step b s) \<noteq> None \<or> Some (x, y, d) = Some (step b s)"
        using "1.prems"(2) by (intro succStoredD)
      moreover have "look b cs (x, y, d) \<noteq> None" using ca Some by (simp add: look.simps)
      ultimately show "look b cs (step b s) \<noteq> None \<or> None = Some (step b s)"
        by auto
    qed
    then show ?thesis using w "1.prems"(1) by simp
  next
    case None
    obtain d' where t: "turn b x y d = Some (ahead d' x y, d')"
        "step b (x, y, d) = (fst (ahead d' x y), snd (ahead d' x y), d')"
        "legit b (step b (x, y, d))"
      using step_ok [OF "1.prems"(3)] by blast
    let ?v = "ahead d' x y"
    let ?cs = "cornerSet cs ?w x y (AList.update d ?v ?es)"
    have w: "walk1 b cs x y d = walk1 b ?cs (fst ?v) (snd ?v) d'"
      by (subst walk1.simps) (simp add: ca None t(1))
    have lk: "look b ?cs s = (if s = (x, y, d) then Some ?v else look b cs s)"
      if "inGrid b s" for s
      using look_update [OF sz g that] by simp
    have sz': "sized b ?cs" using sz by (simp add: sized_def cornerSet_def)
    have snd': "sound b ?cs"
      unfolding sound_def
    proof (intro conjI allI impI)
      show "sized b ?cs" by (rule sz')
    next
      fix x1 y1 d1 v1
      assume a: "inGrid b (x1, y1, d1)" "look b ?cs (x1, y1, d1) = Some v1"
      show "ok b (x1, y1, d1)"
        using a lk [OF a(1)] "1.prems"(3) soundD [OF "1.prems"(1) a(1)]
        by (auto split: if_splits)
      show "\<exists>d'. turn b x1 y1 d1 = Some (v1, d')"
        using a lk [OF a(1)] t(1) soundD [OF "1.prems"(1) a(1)]
        by (auto split: if_splits)
    qed
    have ss': "succStored b ?cs (Some (fst ?v, snd ?v, d'))"
      unfolding succStored_def
    proof (intro allI impI)
      fix s assume s: "inGrid b s" "look b ?cs s \<noteq> None"
      show "look b ?cs (step b s) \<noteq> None \<or> Some (fst ?v, snd ?v, d') = Some (step b s)"
      proof (cases "s = (x, y, d)")
        case True
        then show ?thesis using t(2) by simp
      next
        case False
        then have l: "look b cs s \<noteq> None" using s lk [OF s(1)] by simp
        then have "ok b s" using "1.prems"(1) s(1) by (rule sound_look_ok [rotated 2])
        then have "inGrid b (step b s)" by (intro ok_inGrid) (simp add: ok_def legit_step)
        moreover have "look b cs (step b s) \<noteq> None \<or> step b s = (x, y, d)"
          using succStoredD [OF "1.prems"(2) s(1) l] by auto
        ultimately show ?thesis using lk [of "step b s"] by auto
      qed
    qed
    have ok': "ok b (fst ?v, snd ?v, d')" using t(2,3) by (simp add: ok_def)
    have "\<exists>cs'. walk1 b ?cs (fst ?v) (snd ?v) d' = Inr cs' \<and> sound b cs' \<and> succStored b cs' None"
      using "1.IH" [OF ca None t(1) refl snd' ss' ok'] .
    then show ?thesis using w by simp
  qed
qed

lemma startWalk_inv:
  assumes "sound b cs" "succStored b cs None" "inGrid b (x, y, East)"
  shows "\<exists>cs'. startWalk b y x cs = Inr cs' \<and> sound b cs' \<and> succStored b cs' None"
proof -
  have sz: "sized b cs" using assms(1) by (simp add: sound_def)
  have ca: "cornerAt cs (width b + 1) x y = Some (cs ! nat (y * (width b + 1) + x))"
    using sz assms(3) by (rule cornerAt_inGrid)
  show ?thesis
  proof (cases "startWalk b y x cs = walk1 b cs x y East")
    case False
    then have "startWalk b y x cs = Inr cs"
      by (auto simp: startWalk_def ca split: if_splits)
    then show ?thesis using assms by simp
  next
    case True
    show ?thesis
    proof (cases "cell b x y \<and> \<not> cell b x (y - 1)")
      case True
      then have "ok b (x, y, East)" by (simp add: ok_def)
      moreover have "succStored b cs (Some (x, y, East))"
        using assms(2) by (simp add: succStored_def)
      ultimately show ?thesis
        using walk1_inv [OF assms(1)] \<open>startWalk b y x cs = walk1 b cs x y East\<close> by simp
    next
      case False
      then have "startWalk b y x cs = Inr cs"
        by (auto simp: startWalk_def ca split: if_splits)
      then show ?thesis using assms by simp
    qed
  qed
qed

lemma length_newCorners: "sized b (newCorners b)"
proof -
  have "length (concat (map (\<lambda>y. map (\<lambda>x. ([]::entries)) xs) ys)) = length xs * length ys"
    for xs ys :: "int list"
    by (induction ys) simp_all
  then show ?thesis by (simp add: sized_def newCorners_def)
qed

lemma look_newCorners: "look b (newCorners b) s = None"
proof -
  obtain x y d where s: "s = (x, y, d)" by (cases s)
  have e: "\<forall>es \<in> set (newCorners b). es = []" by (auto simp: newCorners_def)
  have "cornerAt (newCorners b) (width b + 1) x y = None
      \<or> cornerAt (newCorners b) (width b + 1) x y = Some []"
  proof (cases "0 \<le> y * (width b + 1) + x
      \<and> y * (width b + 1) + x < int (length (newCorners b))")
    case True
    then have "newCorners b ! nat (y * (width b + 1) + x) \<in> set (newCorners b)"
      by (intro nth_mem) (simp add: nat_less_iff)
    then show ?thesis using True e by (simp add: cornerAt_def Let_def)
  next
    case False
    then show ?thesis by (auto simp: cornerAt_def Let_def)
  qed
  then show ?thesis unfolding s by (auto simp: look.simps split: option.splits)
qed

lemma buildCorners_inv:
  "\<exists>cs. buildCorners b = Inr cs \<and> sound b cs \<and> succStored b cs None"
proof -
  let ?I = "\<lambda>cs. sound b cs \<and> succStored b cs None"
  have init: "?I (newCorners b)"
    by (simp add: sound_def succStored_def length_newCorners look_newCorners)
  have row: "\<exists>cs'. forEach (startWalk b y) [0..width b] cs = Inr cs' \<and> ?I cs'"
    if "?I cs" "y \<in> set [0..height b]" for y cs
  proof (rule forEach_inv [where I = ?I, OF that(1)])
    fix x cs assume "x \<in> set [0..width b]" "?I cs"
    then show "\<exists>cs'. startWalk b y x cs = Inr cs' \<and> ?I cs'"
      using startWalk_inv [of b cs x y] that(2) by simp
  qed
  show ?thesis
    unfolding buildCorners_def
    by (rule forEach_inv [where I = ?I, OF init]) (use row in blast)
qed

lemma legitClosedD:
  "legitClosed b cs \<Longrightarrow> inGrid b s \<Longrightarrow> legit b s \<Longrightarrow> look b cs s \<noteq> None \<Longrightarrow>
     look b cs (step b s) \<noteq> None"
  unfolding legitClosed_def by blast

lemma ok_funpow: "ok b s0 \<Longrightarrow> ok b ((step b ^^ n) s0)"
  by (induction n) (auto simp: ok_def legit_step)

lemma legit_funpow: "ok b s0 \<Longrightarrow> 0 < n \<Longrightarrow> legit b ((step b ^^ n) s0)"
  by (cases n) (auto intro: legit_step ok_funpow)

lemma hopTo_ahead: "hopTo x y (ahead e x y) d = (e, hopOf e)"
  by (cases e) (simp_all add: hopTo_def)

lemma step_inj:
  assumes "legit b s" "legit b s'" "step b s = step b s'"
  shows "s = s'"
proof -
  obtain x y d where s: "s = (x, y, d)" by (cases s)
  obtain x' y' d' where s': "s' = (x', y', d')" by (cases s')
  obtain e where e: "turn b x y d = Some (ahead e x y, e)"
      "step b (x, y, d) = (fst (ahead e x y), snd (ahead e x y), e)"
    using step_ok [of b x y d] assms(1) by (auto simp: s ok_def)
  obtain e' where e': "turn b x' y' d' = Some (ahead e' x' y', e')"
      "step b (x', y', d') = (fst (ahead e' x' y'), snd (ahead e' x' y'), e')"
    using step_ok [of b x' y' d'] assms(2) by (auto simp: s' ok_def)
  have ee: "e' = e" and a: "ahead e x y = ahead e x' y'"
    using assms(3) e(2) e'(2) by (auto simp: s s' prod_eq_iff)
  have xy: "x' = x" "y' = y" using a by (cases e; simp)+
  have "d' = d"
    using assms(1,2) e(1) e'(1) unfolding s s' ee xy
    by (cases d; cases d'; cases e; simp split: if_splits)
  then show ?thesis by (simp add: s s' xy)
qed

lemma step_same_vertex:
  assumes "ok b s" "ok b s'" "step b s = step b s'"
  shows "vertexOf s = vertexOf s'"
proof -
  obtain x y d where s: "s = (x, y, d)" by (cases s)
  obtain x' y' d' where s': "s' = (x', y', d')" by (cases s')
  obtain e where e: "step b (x, y, d) = (fst (ahead e x y), snd (ahead e x y), e)"
    using step_ok [of b x y d] assms(1) by (auto simp: s)
  obtain e' where e': "step b (x', y', d') = (fst (ahead e' x' y'), snd (ahead e' x' y'), e')"
    using step_ok [of b x' y' d'] assms(2) by (auto simp: s')
  have ee: "e' = e" and a: "ahead e x y = ahead e x' y'"
    using assms(3) e e' by (auto simp: s s' prod_eq_iff)
  have "x' = x" "y' = y" using a by (cases e; simp)+
  then show ?thesis by (simp add: s s')
qed

lemma visitedD:
  assumes "visited b cs0 s0 n cs"
  shows "sized b cs"
    and "\<And>j. j < n \<Longrightarrow> look b cs0 ((step b ^^ j) s0) \<noteq> None"
    and "\<And>i j. i < j \<Longrightarrow> j < n \<Longrightarrow> (step b ^^ i) s0 \<noteq> (step b ^^ j) s0"
    and "\<And>s. inGrid b s \<Longrightarrow>
           look b cs s = (if \<exists>j<n. s = (step b ^^ j) s0 then None else look b cs0 s)"
  using assms unfolding visited_def by blast+

lemma visited_Suc:
  assumes v: "visited b cs0 s0 n cs" and c: "(step b ^^ n) s0 = (x, y, d)"
    and g: "inGrid b (x, y, d)" and l: "look b cs (x, y, d) \<noteq> None"
  shows "visited b cs0 s0 (Suc n)
           (cornerSet cs (width b + 1) x y (AList.delete d (cs ! nat (y * (width b + 1) + x))))"
proof -
  let ?cs = "cornerSet cs (width b + 1) x y (AList.delete d (cs ! nat (y * (width b + 1) + x)))"
  note vd = visitedD [OF v]
  have new: "\<not> (\<exists>j<n. (x, y, d) = (step b ^^ j) s0)" "look b cs0 (x, y, d) \<noteq> None"
    using vd(4) [OF g] l by (auto split: if_splits)
  have 1: "sized b ?cs" using vd(1) by (simp add: sized_def cornerSet_def)
  have 2: "look b cs0 ((step b ^^ j) s0) \<noteq> None" if "j < Suc n" for j
    using that vd(2) [of j] new(2) c by (cases "j = n") auto
  have 3: "(step b ^^ i) s0 \<noteq> (step b ^^ j) s0" if "i < j" "j < Suc n" for i j
  proof (cases "j = n")
    case True
    then show ?thesis using new(1) that c by (metis)
  next
    case False
    then show ?thesis using that vd(3) [of i j] by simp
  qed
  have 4: "look b ?cs s = (if \<exists>j<Suc n. s = (step b ^^ j) s0 then None else look b cs0 s)"
    if "inGrid b s" for s
  proof -
    have "look b ?cs s = (if s = (x, y, d) then None else look b cs s)"
      by (rule look_delete [OF vd(1) g that])
    also have "\<dots> = (if s = (x, y, d) then None
        else if \<exists>j<n. s = (step b ^^ j) s0 then None else look b cs0 s)"
      using vd(4) [OF that] by simp
    also have "\<dots> = (if \<exists>j<Suc n. s = (step b ^^ j) s0 then None else look b cs0 s)"
      using c by (auto simp: less_Suc_eq)
    finally show ?thesis .
  qed
  show ?thesis unfolding visited_def using 1 2 3 4 by blast
qed

lemma walk2_run:
  assumes "sound b cs0" "ok b s0"
  shows "visited b cs0 s0 n cs \<Longrightarrow> (step b ^^ n) s0 = (x, y, d) \<Longrightarrow> w = width b + 1 \<Longrightarrow>
     \<exists>cs' m. n \<le> m \<and> walk2 w cs x y d path = Inr (cs', path @ map (hopAt b s0) [n..<m])
        \<and> visited b cs0 s0 m cs' \<and> look b cs' ((step b ^^ m) s0) = None"
proof (induction w cs x y d path arbitrary: n rule: walk2.induct)
  case (1 w cs x y d path)
  let ?es = "cs ! nat (y * w + x)"
  note vd = visitedD [OF "1.prems"(1)]
  have w: "w = width b + 1" by (rule "1.prems"(3))
  have okc: "ok b (x, y, d)" using ok_funpow [OF assms(2), of n] "1.prems"(2) by simp
  have g: "inGrid b (x, y, d)" using okc by (rule ok_inGrid)
  have ca: "cornerAt cs w x y = Some ?es" unfolding w using vd(1) g by (rule cornerAt_inGrid)
  show ?case
  proof (cases "map_of ?es d")
    case None
    have "walk2 w cs x y d path = Inr (cs, path)"
      by (subst walk2.simps) (simp add: ca None)
    moreover have "look b cs ((step b ^^ n) s0) = None"
      using ca None by (simp add: "1.prems"(2) look.simps w)
    ultimately show ?thesis using "1.prems"(1) by (intro exI [of _ cs] exI [of _ n]) simp
  next
    case (Some v)
    have l: "look b cs (x, y, d) = Some v" using ca Some by (simp add: look.simps w)
    then have l0: "look b cs0 (x, y, d) = Some v"
      using vd(4) [OF g] by (auto split: if_splits)
    obtain e where e: "turn b x y d = Some (ahead e x y, e)"
        "step b (x, y, d) = (fst (ahead e x y), snd (ahead e x y), e)"
      using step_ok [OF okc] by blast
    have v: "v = ahead e x y" using soundD [OF assms(1) g l0] e(1) by auto
    have h: "hopTo x y v d = (e, hopOf e)" unfolding v by (rule hopTo_ahead)
    let ?cs = "cornerSet cs w x y (AList.delete d ?es)"
    have vis: "visited b cs0 s0 (Suc n) ?cs"
      unfolding w using visited_Suc [OF "1.prems"(1,2) g] l by (simp add: w)
    have nxt: "(step b ^^ Suc n) s0 = (fst v, snd v, e)"
      using "1.prems"(2) e(2) by (simp add: v)
    have unf: "walk2 w cs x y d path = walk2 w ?cs (fst v) (snd v) e (path @ [hopOf e])"
      by (subst walk2.simps) (simp add: ca Some h)
    obtain cs' m where r: "Suc n \<le> m"
        "walk2 w ?cs (fst v) (snd v) e (path @ [hopOf e])
           = Inr (cs', (path @ [hopOf e]) @ map (hopAt b s0) [Suc n..<m])"
        "visited b cs0 s0 m cs'" "look b cs' ((step b ^^ m) s0) = None"
      using "1.IH" [OF ca Some refl h [symmetric] vis nxt w] by blast
    have "hopAt b s0 n = hopOf e" using nxt by (simp add: hopAt_def)
    then have "(path @ [hopOf e]) @ map (hopAt b s0) [Suc n..<m] = path @ map (hopAt b s0) [n..<m]"
      using r(1) by (simp add: upt_conv_Cons)
    then show ?thesis using r unf by (intro exI [of _ cs'] exI [of _ m]) simp
  qed
qed

lemma orbit_end:
  assumes lc: "legitClosed b cs0" and ok0: "ok b s0" and st: "look b cs0 s0 \<noteq> None"
    and vis: "visited b cs0 s0 m cs'" and fin: "look b cs' ((step b ^^ m) s0) = None"
  shows "0 < m"
    and "legit b s0 \<Longrightarrow> (step b ^^ m) s0 = s0"
    and "\<not> legit b s0 \<Longrightarrow> m = 1 \<or> (1 < m \<and> (step b ^^ m) s0 = step b s0)"
proof -
  note vd = visitedD [OF vis]
  have g: "inGrid b ((step b ^^ k) s0)" for k
    using ok_funpow [OF ok0] by (intro ok_inGrid)
  show m: "0 < m"
  proof (rule ccontr)
    assume "\<not> 0 < m"
    then have "m = 0" by simp
    then have "look b cs' s0 = look b cs0 s0" using vd(4) [OF g [of 0]] by simp
    then show False using fin st \<open>m = 0\<close> by simp
  qed
  let ?u = "(step b ^^ (m - 1)) s0"
  let ?t = "(step b ^^ m) s0"
  have t: "?t = step b ?u" using m by (cases m) simp_all
  have again: "\<exists>j<m. ?t = (step b ^^ j) s0" if "legit b ?u"
  proof -
    have "look b cs0 ?u \<noteq> None" using vd(2) [of "m - 1"] m by simp
    then have "look b cs0 ?t \<noteq> None"
      unfolding t using lc g that by (intro legitClosedD)
    then show ?thesis using vd(4) [OF g [of m]] fin by (auto split: if_splits)
  qed
  have no: False if "legit b ?u" "j < m" "0 < j" "?t = (step b ^^ j) s0"
      "legit b ((step b ^^ (j - 1)) s0)" for j
  proof -
    have "(step b ^^ j) s0 = step b ((step b ^^ (j - 1)) s0)"
      using that(3) by (cases j) simp_all
    then have "step b ?u = step b ((step b ^^ (j - 1)) s0)"
      using that(4) t by metis
    with that(1,5) have "?u = (step b ^^ (j - 1)) s0" by (rule step_inj)
    moreover have "j - 1 < m - 1" "m - 1 < m" using that(2,3) by simp_all
    ultimately show False using vd(3) [of "j - 1" "m - 1"] by simp
  qed
  show "(step b ^^ m) s0 = s0" if l0: "legit b s0"
  proof -
    have all: "legit b ((step b ^^ k) s0)" for k
      using l0 legit_funpow [OF ok0, of k] by (cases k) simp_all
    obtain j where j: "j < m" "?t = (step b ^^ j) s0" using again all by blast
    have "j = 0" using no [OF all j(1) _ j(2) all] by auto
    then show ?thesis using j(2) by simp
  qed
  show "m = 1 \<or> (1 < m \<and> (step b ^^ m) s0 = step b s0)" if l0: "\<not> legit b s0"
  proof (cases "m = 1")
    case True
    then show ?thesis by simp
  next
    case False
    then have m1: "1 < m" using m by simp
    then have lu: "legit b ?u" using legit_funpow [OF ok0, of "m - 1"] by simp
    obtain j where j: "j < m" "?t = (step b ^^ j) s0" using again lu by blast
    have lt: "legit b ?t" using legit_funpow [OF ok0 m] .
    have "j \<noteq> 0"
    proof
      assume "j = 0"
      then have "(step b ^^ m) s0 = s0" using j(2) by simp
      then show False using lt l0 by simp
    qed
    moreover have "\<not> 1 < j"
    proof
      assume "1 < j"
      then have "legit b ((step b ^^ (j - 1)) s0)" using legit_funpow [OF ok0, of "j - 1"] by simp
      then show False using no [OF lu j(1) _ j(2)] \<open>1 < j\<close> by simp
    qed
    ultimately have "j = 1" by simp
    then show ?thesis using j(2) m1 by simp
  qed
qed

lemma orbit_inv:
  assumes snd: "sound b cs0" and lc: "legitClosed b cs0" and ok0: "ok b s0"
    and st: "look b cs0 s0 \<noteq> None"
    and vis: "visited b cs0 s0 m cs'" and fin: "look b cs' ((step b ^^ m) s0) = None"
  shows "sound b cs'" and "legitClosed b cs'"
proof -
  note vd = visitedD [OF vis]
  note oe = orbit_end [OF lc ok0 st vis fin]
  have g: "inGrid b ((step b ^^ k) s0)" for k
    using ok_funpow [OF ok0] by (intro ok_inGrid)
  show "sound b cs'"
    unfolding sound_def
  proof (intro conjI allI impI)
    show "sized b cs'" by (rule vd(1))
  next
    fix x y d v
    assume a: "inGrid b (x, y, d)" "look b cs' (x, y, d) = Some v"
    then have "look b cs0 (x, y, d) = Some v" using vd(4) [OF a(1)] by (auto split: if_splits)
    then show "ok b (x, y, d)" "\<exists>d'. turn b x y d = Some (v, d')"
      using soundD [OF snd a(1)] by auto
  qed
  show "legitClosed b cs'"
    unfolding legitClosed_def
  proof (intro allI impI)
    fix s
    assume a: "inGrid b s" "legit b s" "look b cs' s \<noteq> None"
    have nv: "\<not> (\<exists>j<m. s = (step b ^^ j) s0)" and l0: "look b cs0 s \<noteq> None"
      using vd(4) [OF a(1)] a(3) by (auto split: if_splits)
    have l1: "look b cs0 (step b s) \<noteq> None" using lc a(1,2) l0 by (rule legitClosedD)
    have gs: "inGrid b (step b s)" using a(2) by (intro ok_inGrid) (simp add: ok_def legit_step)
    let ?u = "(step b ^^ (m - 1)) s0"
    have tu: "(step b ^^ m) s0 = step b ?u" using oe(1) by (cases m) simp_all
    have "\<not> (\<exists>j<m. step b s = (step b ^^ j) s0)"
    proof
      assume "\<exists>j<m. step b s = (step b ^^ j) s0"
      then obtain j where j: "j < m" "step b s = (step b ^^ j) s0" by blast
      show False
      proof (cases "j = 0")
        case True
        then have s0: "step b s = s0" using j(2) by simp
        then have ls0: "legit b s0" using legit_step [of b s] a(2) by (simp add: ok_def)
        then have lu: "legit b ?u" using legit_funpow [OF ok0, of "m - 1"] by (cases "m - 1") simp_all
        have "step b s = step b ?u" using oe(2) [OF ls0] tu s0 by simp
        with a(2) lu have "s = ?u" by (rule step_inj)
        moreover have "m - 1 < m" using oe(1) by simp
        ultimately show False using nv by blast
      next
        case False
        let ?p = "(step b ^^ (j - 1)) s0"
        have sp: "step b s = step b ?p" using False j(2) by (cases j) simp_all
        show False
        proof (cases "legit b ?p")
          case True
          with a(2) have "s = ?p" using sp by (rule step_inj)
          moreover have "j - 1 < m" using j(1) by simp
          ultimately show False using nv by blast
        next
          case nl: False
          have "\<not> 0 < j - 1" using legit_funpow [OF ok0, of "j - 1"] nl by blast
          then have j1: "j = 1" using False by simp
          then have nl0: "\<not> legit b s0" using nl by simp
          have ss: "step b s = step b s0" using sp j1 by simp
          consider "m = 1" | "1 < m" "(step b ^^ m) s0 = step b s0" using oe(3) [OF nl0] by blast
          then show False
          proof cases
            case 1
            have "step b s0 \<noteq> s0" using legit_step [OF ok0] nl0 by auto
            then have "look b cs' (step b s0) = look b cs0 (step b s0)"
              using vd(4) [OF g [of 1]] 1 by simp
            then show False using fin 1 l1 ss by simp
          next
            case 2
            then have lu: "legit b ?u" using legit_funpow [OF ok0, of "m - 1"] by simp
            have "step b s = step b ?u" using ss 2(2) tu by simp
            with a(2) lu have "s = ?u" by (rule step_inj)
            moreover have "m - 1 < m" using oe(1) by simp
            ultimately show False using nv by blast
          qed
        qed
      qed
    qed
    then show "look b cs' (step b s) \<noteq> None" using vd(4) [OF gs] l1 by simp
  qed
qed

lemma walk2_loop:
  assumes "sound b cs" "legitClosed b cs" "inGrid b (x, y, d)" "look b cs (x, y, d) \<noteq> None"
  shows "\<exists>cs' m. walk2 (width b + 1) cs x y d path
            = Inr (cs', path @ map (hopAt b (x, y, d)) [0..<m])
         \<and> sound b cs' \<and> legitClosed b cs' \<and> 0 < m
         \<and> (legit b (x, y, d) \<longrightarrow> (step b ^^ m) (x, y, d) = (x, y, d))
         \<and> (\<not> legit b (x, y, d) \<longrightarrow>
              m = 1 \<or> (1 < m \<and> (step b ^^ m) (x, y, d) = step b (x, y, d)))"
proof -
  let ?s0 = "(x, y, d)"
  have ok0: "ok b ?s0" using assms(1,3,4) by (rule sound_look_ok)
  have v0: "visited b cs ?s0 0 cs" using assms(1) by (simp add: visited_def sound_def)
  obtain cs' m where r:
      "walk2 (width b + 1) cs x y d path = Inr (cs', path @ map (hopAt b ?s0) [0..<m])"
      "visited b cs ?s0 m cs'" "look b cs' ((step b ^^ m) ?s0) = None"
    using walk2_run [OF assms(1) ok0 v0, of x y d "width b + 1" path] by auto
  note oe = orbit_end [OF assms(2) ok0 assms(4) r(2,3)]
  note oi = orbit_inv [OF assms(1,2) ok0 assms(4) r(2,3)]
  show ?thesis using r(1) oe oi by (intro exI [of _ cs'] exI [of _ m]) blast
qed

lemma replay_append: "replay st (xs @ ys) = replay (replay st xs) ys"
  by (induction xs arbitrary: st) simp_all

lemma closedFrom_append: "closedFrom st xs \<Longrightarrow> closedFrom st (xs @ ys) = closedFrom None ys"
  by (induction st xs rule: closedFrom.induct) simp_all

lemma closedFrom_hops:
  "\<forall>t \<in> set hs. kind t \<noteq> None \<Longrightarrow>
     closedFrom (Some st) (hs @ rest) = closedFrom (Some (replay st hs)) rest"
proof (induction hs arbitrary: st)
  case Nil
  then show ?case by simp
next
  case (Cons t hs)
  then obtain a d where t: "t = Hop a d" by (cases t) auto
  show ?case using Cons by (simp add: t)
qed

lemma closedFrom_loop:
  assumes "\<forall>t \<in> set hs. kind t \<noteq> None" "fst (replay ((x, y), (x, y)) hs) = (x, y)"
  shows "closedFrom None (MoveTo x y # hs @ [ClosePath])"
proof -
  have s: "snd (replay st hs) = snd st" for st
    using assms(1)
  proof (induction hs arbitrary: st)
    case Nil
    then show ?case by simp
  next
    case (Cons t hs)
    then obtain a d where t: "t = Hop a d" by (cases t) auto
    obtain px py s where st: "st = ((px, py), s)" by (cases st) auto
    show ?case using Cons by (cases a) (simp_all add: t st)
  qed
  let ?st = "((x, y), (x, y))"
  have "closedFrom None (MoveTo x y # hs @ [ClosePath]) = closedFrom (Some ?st) (hs @ [ClosePath])"
    by simp
  also have "\<dots> = closedFrom (Some (replay ?st hs)) [ClosePath]"
    by (rule closedFrom_hops [OF assms(1)])
  also have "\<dots> = (fst (replay ?st hs) = snd (replay ?st hs))" by simp
  finally have e: "closedFrom None (MoveTo x y # hs @ [ClosePath])
      = (fst (replay ?st hs) = snd (replay ?st hs))" .
  show ?thesis unfolding e using assms(2) s [of ?st] by simp
qed

lemma kind_hopAt: "kind (hopAt b s0 j) \<noteq> None"
  unfolding hopAt_def by (cases "dirOf ((step b ^^ Suc j) s0)") simp_all

lemma step_vertex:
  assumes "ok b s"
  shows "vertexOf (step b s) = ahead (dirOf (step b s)) (fst (vertexOf s)) (snd (vertexOf s))"
proof -
  obtain x y d where s: "s = (x, y, d)" by (cases s)
  obtain e where "step b (x, y, d) = (fst (ahead e x y), snd (ahead e x y), e)"
    using step_ok [of b x y d] assms by (auto simp: s)
  then show ?thesis by (simp add: s)
qed

lemma draw_hopOf:
  "draw (hopOf e) ((px, py), st) =
     ((px + of_int (fst (ahead e x y) - x), py + of_int (snd (ahead e x y) - y)), st)"
  by (cases e) simp_all

lemma replay_hops:
  assumes "ok b s0"
  shows "replay ((px, py), st) (map (hopAt b s0) [0..<k]) =
     ((px + of_int (fst (vertexOf ((step b ^^ k) s0)) - fst (vertexOf s0)),
       py + of_int (snd (vertexOf ((step b ^^ k) s0)) - snd (vertexOf s0))), st)"
proof (induction k)
  case 0
  show ?case by simp
next
  case (Suc k)
  let ?s = "(step b ^^ k) s0"
  let ?qx = "px + of_int (fst (vertexOf ?s) - fst (vertexOf s0))"
  let ?qy = "py + of_int (snd (vertexOf ?s) - snd (vertexOf s0))"
  have v: "vertexOf (step b ?s) = ahead (dirOf (step b ?s)) (fst (vertexOf ?s)) (snd (vertexOf ?s))"
    using ok_funpow [OF assms] by (rule step_vertex)
  have h: "hopAt b s0 k = hopOf (dirOf (step b ?s))" by (simp add: hopAt_def)
  have "replay ((px, py), st) (map (hopAt b s0) [0..<Suc k]) =
      draw (hopAt b s0 k) (replay ((px, py), st) (map (hopAt b s0) [0..<k]))"
    by (simp add: replay_append)
  also have "\<dots> = draw (hopOf (dirOf (step b ?s))) ((?qx, ?qy), st)"
    by (simp only: Suc h)
  also have "\<dots> =
      ((?qx + of_int (fst (vertexOf (step b ?s)) - fst (vertexOf ?s)),
        ?qy + of_int (snd (vertexOf (step b ?s)) - snd (vertexOf ?s))), st)"
    unfolding v by (rule draw_hopOf)
  also have "\<dots> =
     ((px + of_int (fst (vertexOf ((step b ^^ Suc k) s0)) - fst (vertexOf s0)),
       py + of_int (snd (vertexOf ((step b ^^ Suc k) s0)) - snd (vertexOf s0))), st)"
    by simp
  finally show ?case .
qed

lemma parity_hops:
  assumes "ok b s0"
  shows "\<exists>m. fst (vertexOf ((step b ^^ k) s0)) + snd (vertexOf ((step b ^^ k) s0)) =
         fst (vertexOf s0) + snd (vertexOf s0) + int k - 2 * m"
proof (induction k)
  case 0
  show ?case by simp
next
  case (Suc k)
  let ?s = "(step b ^^ k) s0"
  have v: "vertexOf (step b ?s) = ahead (dirOf (step b ?s)) (fst (vertexOf ?s)) (snd (vertexOf ?s))"
    using ok_funpow [OF assms] by (rule step_vertex)
  have a: "fst (ahead e x y) + snd (ahead e x y) = x + y + 1
      \<or> fst (ahead e x y) + snd (ahead e x y) = x + y + 1 - 2 * 1" for e x y
    by (cases e) simp_all
  define p where "p = fst (vertexOf ?s) + snd (vertexOf ?s)"
  define q where "q = fst (vertexOf (step b ?s)) + snd (vertexOf (step b ?s))"
  define r where "r = fst (vertexOf s0) + snd (vertexOf s0)"
  obtain m where m: "p = r + int k - 2 * m" using Suc unfolding p_def r_def by blast
  have "q = p + 1 \<or> q = p + 1 - 2 * 1"
    using a [of "dirOf (step b ?s)" "fst (vertexOf ?s)" "snd (vertexOf ?s)"]
    by (simp add: p_def q_def v)
  then have "q = r + int (Suc k) - 2 * m \<or> q = r + int (Suc k) - 2 * (m + 1)"
    using m by auto
  then have "\<exists>m. q = r + int (Suc k) - 2 * m" by blast
  then show ?case by (simp add: q_def r_def)
qed

lemma even_return:
  assumes "ok b s0" "vertexOf ((step b ^^ k) s0) = vertexOf s0"
  shows "even k"
proof -
  obtain m where "fst (vertexOf ((step b ^^ k) s0)) + snd (vertexOf ((step b ^^ k) s0)) =
         fst (vertexOf s0) + snd (vertexOf s0) + int k - 2 * m"
    using parity_hops [OF assms(1)] by blast
  then have "int k = 2 * m" using assms(2) by simp
  then have "even (int k)" by simp
  then show ?thesis by simp
qed

lemma closeLoop_trace:
  assumes ok0: "ok b (x, y, d)" and m: "0 < m"
    and l: "legit b (x, y, d) \<longrightarrow> (step b ^^ m) (x, y, d) = (x, y, d)"
    and nl: "\<not> legit b (x, y, d) \<longrightarrow>
              m = 1 \<or> (1 < m \<and> (step b ^^ m) (x, y, d) = step b (x, y, d))"
  shows "closeLoop (MoveTo X Y # map (hopAt b (x, y, d)) [0..<m]) = None
       \<or> (\<exists>p. closeLoop (MoveTo X Y # map (hopAt b (x, y, d)) [0..<m]) = Some p
              \<and> closedFrom None p)"
proof -
  let ?s0 = "(x, y, d)"
  let ?hs = "map (hopAt b ?s0) [0..<m]"
  have hops: "\<forall>t \<in> set (map (hopAt b ?s0) [0..<k]). kind t \<noteq> None" for k
    using kind_hopAt [of b ?s0] by auto
  have ret: "fst (replay ((X, Y), (X, Y)) (map (hopAt b ?s0) [0..<k])) = (X, Y)"
    if "vertexOf ((step b ^^ k) ?s0) = vertexOf ?s0" for k
    using that by (simp add: replay_hops [OF ok0])
  show ?thesis
  proof (cases "legit b ?s0")
    case True
    then have r: "vertexOf ((step b ^^ m) ?s0) = vertexOf ?s0" using l by simp
    have em: "even m" using ok0 r by (rule even_return)
    have "Suc m mod 2 \<noteq> 0" "\<not> Suc m \<le> 2" using em m by presburger+
    then have "closeLoop (MoveTo X Y # ?hs) = Some (MoveTo X Y # ?hs @ [ClosePath])"
      by (simp add: closeLoop_def)
    moreover have "closedFrom None (MoveTo X Y # ?hs @ [ClosePath])"
      using hops ret [OF r] by (rule closedFrom_loop)
    ultimately show ?thesis by simp
  next
    case False
    then consider "m = 1" | "1 < m" "(step b ^^ m) ?s0 = step b ?s0" using nl by blast
    then show ?thesis
    proof cases
      case 1
      then show ?thesis by (simp add: closeLoop_def)
    next
      case 2
      let ?u = "(step b ^^ (m - 1)) ?s0"
      have "step b ?u = step b ?s0" using 2 by (cases m) simp_all
      with ok_funpow [OF ok0] ok0 have r: "vertexOf ?u = vertexOf ?s0"
        by (rule step_same_vertex)
      have e: "even (m - 1)" using ok0 r by (rule even_return)
      then have "odd m" using 2(1) by (cases m) simp_all
      then have o: "Suc m mod 2 = 0" by presburger
      have bl: "butlast ?hs = map (hopAt b ?s0) [0..<m - 1]"
        using 2(1) by (cases m) (simp_all add: butlast_append)
      have ne: "?hs \<noteq> []" using m by simp
      have "closeLoop (MoveTo X Y # ?hs)
          = Some (MoveTo X Y # map (hopAt b ?s0) [0..<m - 1] @ [ClosePath])"
        using 2(1) o ne bl by (simp add: closeLoop_def)
      moreover have "closedFrom None (MoveTo X Y # map (hopAt b ?s0) [0..<m - 1] @ [ClosePath])"
        using hops ret [OF r] by (rule closedFrom_loop)
      ultimately show ?thesis by simp
    qed
  qed
qed

lemma addLoop_inv:
  assumes "traceInv c" "closedFrom None p"
  shows "traceInv (addLoop p c)"
  using assms by (auto simp: traceInv_def addLoop_def allLoopsClosed_def closedFrom_append)

lemma tracePath_inv:
  assumes "sound b cs" "legitClosed b cs" "inGrid b (x, y, East)" "traceInv c"
  shows "\<exists>cs' c'. tracePath b margin y x (cs, c) = Inr (cs', c')
           \<and> sound b cs' \<and> legitClosed b cs' \<and> traceInv c'"
proof (cases "inPdp b margin x y")
  case True
  then show ?thesis using assms by (simp add: tracePath_def)
next
  case False
  let ?w = "width b + 1"
  let ?es = "cs ! nat (y * ?w + x)"
  have sz: "sized b cs" using assms(1) by (simp add: sound_def)
  have ca: "cornerAt cs ?w x y = Some ?es" using sz assms(3) by (rule cornerAt_inGrid)
  show ?thesis
  proof (cases ?es)
    case Nil
    then show ?thesis using assms False ca by (simp add: tracePath_def)
  next
    case (Cons e es)
    obtain d v where e: "e = (d, v)" by (cases e)
    let ?M = "MoveTo (of_int (x + margin)) (of_int (y + margin))"
    have g: "inGrid b (x, y, d)" using assms(3) by simp
    have lk: "look b cs (x, y, d) \<noteq> None" using ca Cons e by (simp add: look.simps)
    have ok0: "ok b (x, y, d)" using assms(1) g lk by (rule sound_look_ok)
    have "\<exists>cs' m. walk2 ?w cs x y d [?M] = Inr (cs', [?M] @ map (hopAt b (x, y, d)) [0..<m])
         \<and> sound b cs' \<and> legitClosed b cs' \<and> 0 < m
         \<and> (legit b (x, y, d) \<longrightarrow> (step b ^^ m) (x, y, d) = (x, y, d))
         \<and> (\<not> legit b (x, y, d) \<longrightarrow>
              m = 1 \<or> (1 < m \<and> (step b ^^ m) (x, y, d) = step b (x, y, d)))"
      by (rule walk2_loop [OF assms(1,2) g lk])
    then obtain cs' m where r:
        "walk2 ?w cs x y d [?M] = Inr (cs', [?M] @ map (hopAt b (x, y, d)) [0..<m])"
        "sound b cs'" "legitClosed b cs'" "0 < m"
        "legit b (x, y, d) \<longrightarrow> (step b ^^ m) (x, y, d) = (x, y, d)"
        "\<not> legit b (x, y, d) \<longrightarrow>
              m = 1 \<or> (1 < m \<and> (step b ^^ m) (x, y, d) = step b (x, y, d))"
      by (elim exE conjE)
    let ?p = "?M # map (hopAt b (x, y, d)) [0..<m]"
    have t: "tracePath b margin y x (cs, c) =
        (case closeLoop ?p of None \<Rightarrow> Inr (cs', c) | Some p \<Rightarrow> Inr (cs', addLoop p c))"
      using False ca Cons e r(1) by (simp add: tracePath_def)
    note cl = closeLoop_trace [OF ok0 r(4,5,6),
          where X = "of_int (x + margin)" and Y = "of_int (y + margin)"]
    show ?thesis
    proof (cases "closeLoop ?p")
      case None
      then show ?thesis using t r(2,3) assms(4) by simp
    next
      case (Some p)
      then have "closedFrom None p" using cl by simp
      then show ?thesis using Some t r(2,3) addLoop_inv [OF assms(4)] by simp
    qed
  qed
qed

lemma succStored_legitClosed:
  assumes "succStored b cs None"
  shows "legitClosed b cs"
  unfolding legitClosed_def
proof (intro allI impI)
  fix s assume "inGrid b s" "look b cs s \<noteq> None"
  then show "look b cs (step b s) \<noteq> None" using succStoredD [OF assms] by blast
qed

lemma calculateShapeContour_inv:
  "\<exists>c. calculateShapeContour b margin style = Inr c \<and> traceInv c"
proof -
  obtain cs where cs: "buildCorners b = Inr cs" "sound b cs" "succStored b cs None"
    using buildCorners_inv by blast
  let ?I = "\<lambda>st. sound b (fst st) \<and> legitClosed b (fst st) \<and> traceInv (snd st)"
  have init: "?I (cs, Contour)"
    using cs(2,3) by (simp add: succStored_legitClosed traceInv_def allLoopsClosed_def Contour_def)
  have row: "\<exists>st'. forEach (tracePath b margin y) [0..width b] st = Inr st' \<and> ?I st'"
    if "?I st" "y \<in> set [0..height b]" for y st
  proof (rule forEach_inv [where I = ?I, OF that(1)])
    fix x st assume a: "x \<in> set [0..width b]" "?I st"
    obtain cs c where st: "st = (cs, c)" by (cases st)
    show "\<exists>st'. tracePath b margin y x st = Inr st' \<and> ?I st'"
      using tracePath_inv [of b cs x y c margin] a that(2) by (auto simp: st)
  qed
  have "\<exists>st'. forEach (\<lambda>y. forEach (tracePath b margin y) [0..width b]) [0..height b] (cs, Contour)
           = Inr st' \<and> ?I st'"
    by (rule forEach_inv [where I = ?I, OF init]) (use row in blast)
  then show ?thesis
    using cs(1) by (auto simp: calculateShapeContour_def)
qed

section \<open>Corner rounding: closed loops\<close>






lemma snd_draw:
  assumes "drawing t"
  shows "snd (draw t st) = snd st"
proof -
  obtain px py s where st: "st = ((px, py), s)" by (cases st) auto
  show ?thesis
  proof (cases t)
    case (Hop a d)
    then show ?thesis by (cases a) (simp_all add: st)
  qed (use assms in \<open>simp_all add: st drawing_def\<close>)
qed



lemma replay_drawing: "\<forall>t \<in> set xs. drawing t \<Longrightarrow> snd (replay st xs) = snd st"
proof (induction xs arbitrary: st)
  case Nil
  show ?case by simp
next
  case (Cons t xs)
  have "snd (draw t st) = snd st" using Cons.prems by (intro snd_draw) simp
  then show ?case using Cons by simp
qed










section \<open>calculateShapeContour: loops that rounding closes\<close>






















section \<open>The position detection patterns: helper lemmas\<close>

lemma parseInt_of_int [simp]: "parseInt (of_int k) = of_int k"
  by (simp add: parseInt_def)

lemma round_inner:
  "makePathSpecRound (concat (map pdpInnerAt [o1, o2, o3])) =
     Inr (concat (map roundedInnerAt [o1, o2, o3]))"
proof -
  have "makePathSpecRound (concat (map pdpInnerAt [o1, o2, o3])) =
     Inr (concat (map (\<lambda>offset.
       [MoveTo (parseInt (of_int (fst offset + 2)) + 1/2) (parseInt (of_int (snd offset + 2))),
        Hop H 2, Arc True (1/2) (1/2), Hop V 2, Arc True (-1/2) (1/2),
        Hop H (-2), Arc True (-1/2) (-1/2), Hop V (-2), Arc True (1/2) (-1/2), ClosePath])
       [o1, o2, o3]))"
    by code_simp
  then show ?thesis by (simp only: parseInt_of_int roundedInnerAt_def [abs_def])
qed

lemma round_outer:
  "makePathSpecRound (concat (map pdpOuterAt [o1, o2, o3])) =
     Inr (concat (map roundedOuterAt [o1, o2, o3]))"
proof -
  have "makePathSpecRound (concat (map pdpOuterAt [o1, o2, o3])) =
     Inr (concat (map (\<lambda>offset.
       [MoveTo (parseInt (of_int (fst offset)) + 1/2) (parseInt (of_int (snd offset))),
        Hop H 6, Arc True (1/2) (1/2), Hop V 6, Arc True (-1/2) (1/2),
        Hop H (-6), Arc True (-1/2) (-1/2), Hop V (-6), Arc True (1/2) (-1/2), ClosePath,
        MoveTo (parseInt (of_int (fst offset + 1))) (parseInt (of_int (snd offset + 1)) + 1/2),
        Hop V 4, Arc False (1/2) (1/2), Hop H 4, Arc False (1/2) (-1/2),
        Hop V (-4), Arc False (-1/2) (-1/2), Hop H (-4), Arc False (-1/2) (1/2), ClosePath])
       [o1, o2, o3]))"
    by code_simp
  then show ?thesis by (simp only: parseInt_of_int roundedOuterAt_def [abs_def])
qed

lemma compact_rounded_inner:
  "compactPathSpec (concat (map roundedInnerAt [o1, o2, o3])) = concat (map roundedInnerAt [o1, o2, o3])"
  by code_simp

lemma compact_rounded_outer:
  "compactPathSpec (concat (map roundedOuterAt [o1, o2, o3])) = concat (map roundedOuterAt [o1, o2, o3])"
  by code_simp

lemma compact_inner:
  "compactPathSpec (concat (map pdpInnerAt [o1, o2, o3])) = concat (map squareInnerAt [o1, o2, o3])"
  by code_simp

lemma compact_outer:
  "compactPathSpec (concat (map pdpOuterAt [o1, o2, o3])) = concat (map squareOuterAt [o1, o2, o3])"
  by code_simp



lemma buildPdp_small:
  "\<not> (width b > 16 \<and> height b > 16) \<Longrightarrow> buildPdp b margin style Contour = Inr Contour"
  by (auto simp: buildPdp_def)

lemma buildPdp_large:
  assumes "width b > 16 \<and> height b > 16"
  shows "buildPdp b margin style Contour = Inr
     (if style = ''dots'' \<or> style = ''rounded''
      then \<lparr>pdpOuter = concat (map roundedOuterAt (pdpOffsets b margin)),
            pdpInner = concat (map roundedInnerAt (pdpOffsets b margin)), dots = [], shapes = []\<rparr>
      else \<lparr>pdpOuter = concat (map pdpOuterAt (pdpOffsets b margin)),
            pdpInner = concat (map pdpInnerAt (pdpOffsets b margin)), dots = [], shapes = []\<rparr>)"
proof -
  have r: "makePathSpecRound (concat (map pdpInnerAt (pdpOffsets b margin)))
      = Inr (concat (map roundedInnerAt (pdpOffsets b margin)))"
    "makePathSpecRound (concat (map pdpOuterAt (pdpOffsets b margin)))
      = Inr (concat (map roundedOuterAt (pdpOffsets b margin)))"
    unfolding pdpOffsets_def by (rule round_inner round_outer)+
  show ?thesis using assms by (simp add: buildPdp_def Contour_def r)
qed

lemma buildPdp_eq:
  "buildPdp b margin style Contour =
     Inr \<lparr>pdpOuter = pdpOuterOf b margin style, pdpInner = pdpInnerOf b margin style,
          dots = [], shapes = []\<rparr>"
proof (cases "width b > 16 \<and> height b > 16")
  case True
  then show ?thesis by (simp add: buildPdp_large pdpOuterOf_def pdpInnerOf_def)
next
  case False
  have "buildPdp b margin style Contour = Inr Contour" by (rule buildPdp_small [OF False])
  then show ?thesis by (simp add: pdpOuterOf_def pdpInnerOf_def Contour_def False)
qed


lemma pdp_moves:
  "filter isMoveTo (concat (map pdpInnerAt [o1, o2, o3])) =
     map (\<lambda>(ox, oy). MoveTo (of_int (ox + 2)) (of_int (oy + 2))) [o1, o2, o3]"
  "filter isMoveTo (concat (map pdpOuterAt [o1, o2, o3])) =
     concat (map (\<lambda>(ox, oy). [MoveTo (of_int ox) (of_int oy),
                               MoveTo (of_int (ox + 1)) (of_int (oy + 1))]) [o1, o2, o3])"
  "count_list (concat (map pdpInnerAt [o1, o2, o3])) ClosePath = 3"
  "count_list (concat (map pdpOuterAt [o1, o2, o3])) ClosePath = 6"
  by (simp_all add: pdpInnerAt_def pdpOuterAt_def split_beta)

lemma square_moves:
  "filter isMoveTo (concat (map squareInnerAt [o1, o2, o3])) =
     map (\<lambda>(ox, oy). MoveTo (of_int (ox + 2)) (of_int (oy + 2))) [o1, o2, o3]"
  "filter isMoveTo (concat (map squareOuterAt [o1, o2, o3])) =
     concat (map (\<lambda>(ox, oy). [MoveTo (of_int ox) (of_int oy),
                               MoveTo (of_int (ox + 1)) (of_int (oy + 1))]) [o1, o2, o3])"
  "count_list (concat (map squareInnerAt [o1, o2, o3])) ClosePath = 3"
  "count_list (concat (map squareOuterAt [o1, o2, o3])) ClosePath = 6"
  by (simp_all add: squareInnerAt_def squareOuterAt_def split_beta)

lemma rounded_moves:
  "filter isMoveTo (concat (map roundedInnerAt [o1, o2, o3])) =
     map (\<lambda>(ox, oy). MoveTo (of_int (ox + 2) + 1/2) (of_int (oy + 2))) [o1, o2, o3]"
  "filter isMoveTo (concat (map roundedOuterAt [o1, o2, o3])) =
     concat (map (\<lambda>(ox, oy). [MoveTo (of_int ox + 1/2) (of_int oy),
                               MoveTo (of_int (ox + 1)) (of_int (oy + 1) + 1/2)]) [o1, o2, o3])"
  "count_list (concat (map roundedInnerAt [o1, o2, o3])) ClosePath = 3"
  "count_list (concat (map roundedOuterAt [o1, o2, o3])) ClosePath = 6"
  by (simp_all add: roundedInnerAt_def roundedOuterAt_def split_beta)

section \<open>calculateContour: helper lemmas\<close>

lemma closedFrom_last: "closedFrom st p \<Longrightarrow> p \<noteq> [] \<Longrightarrow> last p = ClosePath"
  by (induction st p rule: closedFrom.induct) (auto split: if_splits)

lemma roundLoop_total:
  "p = [] \<or> \<not> isMoveTo (last p) \<Longrightarrow> \<exists>r. roundLoop inner new p = Inr r"
proof (induction inner new p rule: roundLoop.induct)
  case (3 isInnerContour new x y n rest)
  obtain m i where s: "roundStart isInnerContour x y n = (m, i)"
    by (cases "roundStart isInnerContour x y n")
  have "rest = [] \<or> \<not> isMoveTo (last rest)" using "3.prems" by (auto split: if_splits)
  then show ?case using "3.IH" [OF s [symmetric] refl] by (simp add: s)
qed (auto split: if_splits)

lemma round_closed_total: "closedFrom None p \<Longrightarrow> \<exists>r. makePathSpecRound p = Inr r"
  unfolding makePathSpecRound_def
  using closedFrom_last [of None p] by (intro roundLoop_total) (cases "p = []", auto)



lemma closed_dotPath: "closedFrom None (dotPath x y margin)"
  by (simp add: dotPath_def)

lemma closed_mosaicPath: "closedFrom None (mosaicPath tp x y margin a)"
  by (simp add: mosaicPath_def Let_def)

lemma cellMark_closed:
  assumes "style = ''dots'' \<or> style = ''mosaic''" "traceInv (snd st)"
  shows "traceInv (snd (cellMark tp b margin style y x st))"
proof -
  obtain g c where st: "st = (g, c)" by (cases st)
  obtain r g' where n: "PRNG_next g = (r, g')" by (cases "PRNG_next g")
  define p where "p = (if style = ''dots'' then dotPath x y margin
     else mosaicPath tp x y margin (mosaicAngle r))"
  have cp: "closedFrom None p"
    by (simp add: p_def closed_dotPath closed_mosaicPath)
  have "snd (cellMark tp b margin style y x st) = c
      \<or> snd (cellMark tp b margin style y x st) = c\<lparr>dots := dots c @ p\<rparr>
      \<or> snd (cellMark tp b margin style y x st) = c\<lparr>shapes := shapes c @ p\<rparr>"
    using assms(1) by (auto simp: cellMark_def st n Let_def p_def)
  then show ?thesis
    using assms(2) cp by (auto simp: st traceInv_def allLoopsClosed_def closedFrom_append)
qed

lemma cellMarks_inv:
  assumes "style = ''dots'' \<or> style = ''mosaic''"
  shows "\<exists>c. calculateDotsOrMosaicContour tp b margin style = Inr c \<and> traceInv c"
proof -
  let ?P = "\<lambda>st. traceInv (snd st)"
  have row: "?P (fold (cellMark tp b margin style y) xs st)" if "?P st" for y xs st
    using that by (rule fold_inv [where P = ?P]) (rule cellMark_closed [OF assms])
  have "?P (PRNG 1, Contour)"
    by (simp add: traceInv_def allLoopsClosed_def Contour_def)
  then have "?P (fold (\<lambda>y. fold (cellMark tp b margin style y) [0..width b - 1])
         [0..height b - 1] (PRNG 1, Contour))"
    by (rule fold_inv [where P = ?P]) (rule row)
  then show ?thesis using assms by (auto simp: calculateDotsOrMosaicContour_def)
qed

text \<open>The steps of \<open>calculateContour\<close>: the contour of the cells, the contour before
  the last step, and the result.\<close>

lemma raw_contour:
  "\<exists>nc raw.
     (if style = ''dots'' \<or> style = ''mosaic''
      then calculateDotsOrMosaicContour tp b margin style
      else calculateShapeContour b margin style) = Inr nc
     \<and> traceInv nc
     \<and> roundContour style \<lparr>pdpOuter = pdpOuterOf b margin style,
           pdpInner = pdpInnerOf b margin style, dots = dots nc, shapes = shapes nc\<rparr> = Inr raw
     \<and> calculateContour tp b margin style = Inr (finish style raw)
     \<and> pdpOuter raw = pdpOuterOf b margin style \<and> pdpInner raw = pdpInnerOf b margin style
     \<and> (style \<noteq> ''rounded'' \<longrightarrow> dots raw = dots nc \<and> shapes raw = shapes nc)"
proof -
  let ?base = "\<lparr>pdpOuter = pdpOuterOf b margin style, pdpInner = pdpInnerOf b margin style,
          dots = [], shapes = []\<rparr>"
  obtain nc where nc: "(if style = ''dots'' \<or> style = ''mosaic''
                 then calculateDotsOrMosaicContour tp b margin style
                 else calculateShapeContour b margin style) = Inr nc" "traceInv nc"
    using cellMarks_inv [of style tp b margin] calculateShapeContour_inv [of b margin style]
    by (cases "style = ''dots'' \<or> style = ''mosaic''") auto
  let ?c = "\<lparr>pdpOuter = pdpOuterOf b margin style,
           pdpInner = pdpInnerOf b margin style, dots = dots nc, shapes = shapes nc\<rparr>"
  have cl: "closedFrom None (dots nc)" "closedFrom None (shapes nc)"
    using nc(2) by (simp_all add: traceInv_def allLoopsClosed_def)
  obtain raw where raw: "roundContour style ?c = Inr raw"
    "pdpOuter raw = pdpOuterOf b margin style" "pdpInner raw = pdpInnerOf b margin style"
    "style \<noteq> ''rounded'' \<longrightarrow> dots raw = dots nc \<and> shapes raw = shapes nc"
  proof (cases "style = ''rounded''")
    case True
    obtain s d where "makePathSpecRound (shapes nc) = Inr s" "makePathSpecRound (dots nc) = Inr d"
      using round_closed_total cl by blast
    then have "roundContour style ?c = Inr (?c\<lparr>shapes := s, dots := d\<rparr>)"
      using True by (simp add: roundContour_def)
    then show ?thesis using that True by simp
  next
    case False
    then have "roundContour style ?c = Inr ?c" by (simp add: roundContour_def)
    then show ?thesis using that by simp
  qed
  have "calculateContour tp b margin style = Inr (finish style raw)"
    using nc(1) raw(1) by (simp add: calculateContour_def buildPdp_eq finish_def)
  then show ?thesis using nc raw by blast
qed

section \<open>The jitter stream: helper lemmas\<close>

lemma PRNG_skip_0 [simp]: "PRNG_skip 0 g = g"
  by (simp add: PRNG_skip_def)

lemma PRNG_skip_Suc: "PRNG_skip (Suc n) g = PRNG_skip n (snd (PRNG_next g))"
  by (simp add: PRNG_skip_def funpow_Suc_right del: funpow.simps)

lemma PRNG_skip_add: "PRNG_skip (m + n) g = PRNG_skip n (PRNG_skip m g)"
  by (simp add: PRNG_skip_def funpow_add add.commute [of m n])

lemma jitterLoop_state:
  "snd (jitterLoop jv pos g new p) = PRNG_skip (2 * hopCount p) g"
proof (induction jv pos g new p rule: jitterLoop.induct)
  case (3 jitterValue currentPos prng new a distance rest)
  obtain r0 g0 where a: "PRNG_next prng = (r0, g0)" by (cases "PRNG_next prng")
  obtain r1 g1 where b: "PRNG_next g0 = (r1, g1)" by (cases "PRNG_next g0")
  show ?case
    using "3.IH" [OF refl a [symmetric] refl b [symmetric] refl]
    by (simp add: a b hopCount_def PRNG_skip_Suc Let_def)
qed (simp_all add: hopCount_def)

lemma addJitter_state:
  "snd (addJitterToPathSpec p jv g) = PRNG_skip (2 * hopCount p) g"
  by (simp add: addJitterToPathSpec_def jitterLoop_state)

lemma jitterContour_stream:
  "jitterContour jv g c =
     \<lparr>pdpOuter = fst (addJitterToPathSpec (pdpOuter c) jv
          (PRNG_skip (2 * (hopCount (shapes c) + hopCount (dots c) + hopCount (pdpInner c))) g)),
      pdpInner = fst (addJitterToPathSpec (pdpInner c) jv
          (PRNG_skip (2 * (hopCount (shapes c) + hopCount (dots c))) g)),
      dots = fst (addJitterToPathSpec (dots c) jv (PRNG_skip (2 * hopCount (shapes c)) g)),
      shapes = fst (addJitterToPathSpec (shapes c) jv g)\<rparr>"
proof -
  obtain s g1 where s: "addJitterToPathSpec (shapes c) jv g = (s, g1)"
    by (cases "addJitterToPathSpec (shapes c) jv g")
  obtain d g2 where d: "addJitterToPathSpec (dots c) jv g1 = (d, g2)"
    by (cases "addJitterToPathSpec (dots c) jv g1")
  obtain i g3 where i: "addJitterToPathSpec (pdpInner c) jv g2 = (i, g3)"
    by (cases "addJitterToPathSpec (pdpInner c) jv g2")
  obtain out g4 where out: "addJitterToPathSpec (pdpOuter c) jv g3 = (out, g4)"
    by (cases "addJitterToPathSpec (pdpOuter c) jv g3")
  have g1: "g1 = PRNG_skip (2 * hopCount (shapes c)) g"
    using addJitter_state [of "shapes c" jv g] by (simp add: s)
  have "g2 = PRNG_skip (2 * hopCount (dots c)) g1"
    using addJitter_state [of "dots c" jv g1] by (simp add: d)
  then have g2: "g2 = PRNG_skip (2 * (hopCount (shapes c) + hopCount (dots c))) g"
    by (simp add: g1 PRNG_skip_add distrib_left)
  have "g3 = PRNG_skip (2 * hopCount (pdpInner c)) g2"
    using addJitter_state [of "pdpInner c" jv g2] by (simp add: i)
  then have g3: "g3 = PRNG_skip (2 * (hopCount (shapes c) + hopCount (dots c) + hopCount (pdpInner c))) g"
    by (simp add: g2 PRNG_skip_add distrib_left)
  have j: "jitterContour jv g c = c\<lparr>shapes := s, dots := d, pdpInner := i, pdpOuter := out\<rparr>"
    by (simp add: jitterContour_def s d i out)
  have e0: "fst (addJitterToPathSpec (shapes c) jv g) = s" by (simp add: s)
  have e1: "fst (addJitterToPathSpec (dots c) jv (PRNG_skip (2 * hopCount (shapes c)) g)) = d"
    using d by (simp add: g1)
  have e2: "fst (addJitterToPathSpec (pdpInner c) jv
      (PRNG_skip (2 * (hopCount (shapes c) + hopCount (dots c))) g)) = i"
    using i unfolding g2 by simp
  have e3: "fst (addJitterToPathSpec (pdpOuter c) jv
      (PRNG_skip (2 * (hopCount (shapes c) + hopCount (dots c) + hopCount (pdpInner c))) g)) = out"
    using out unfolding g3 by simp
  show ?thesis unfolding j e0 e1 e2 e3 by (cases c) simp
qed

lemma jitterLoop_filter:
  assumes "\<And>a d. \<not> P (Hop a d)" "\<And>x y. \<not> P (LineTo x y)"
  shows "filter P (fst (jitterLoop jv pos g new p)) = filter P new @ filter P p"
proof (induction jv pos g new p rule: jitterLoop.induct)
  case (3 jitterValue currentPos prng new a distance rest)
  obtain r0 g0 where a: "PRNG_next prng = (r0, g0)" by (cases "PRNG_next prng")
  obtain r1 g1 where b: "PRNG_next g0 = (r1, g1)" by (cases "PRNG_next g0")
  show ?case
    using "3.IH" [OF refl a [symmetric] refl b [symmetric] refl] assms
    by (simp add: a b Let_def)
qed (simp_all add: assms)

lemma addJitter_filter:
  assumes "\<And>a d. \<not> P (Hop a d)" "\<And>x y. \<not> P (LineTo x y)"
  shows "filter P (fst (addJitterToPathSpec p jv g)) = filter P p"
  using jitterLoop_filter [of P jv "(0, 0)" g "[]" p] assms
  by (simp add: addJitterToPathSpec_def)

lemma addJitter_moves:
  "filter isMoveTo (fst (addJitterToPathSpec p jv g)) = filter isMoveTo p"
  by (rule addJitter_filter) simp_all

lemma addJitter_closes:
  "count_list (fst (addJitterToPathSpec p jv g)) ClosePath = count_list p ClosePath"
proof -
  have "filter ((=) ClosePath) (fst (addJitterToPathSpec p jv g)) = filter ((=) ClosePath) p"
    by (rule addJitter_filter) simp_all
  then show ?thesis by (simp add: count_list_eq_length_filter)
qed

lemma PRNG_next_skip:
  "PRNG_next (PRNG_skip k g) = (PRNG_stream g k, PRNG_skip (Suc k) g)"
  by (simp add: PRNG_stream_def PRNG_skip_def prod_eq_iff)

lemma jitterLoop_stream:
  "jitterLoop jv pos (PRNG_skip k g) new p =
     (new @ jitteredBy jv (PRNG_stream g) k pos p, PRNG_skip (k + 2 * hopCount p) g)"
proof (induction p arbitrary: k pos new)
  case Nil
  show ?case by (simp add: hopCount_def)
next
  case (Cons t p)
  show ?case
  proof (cases t)
    case (Hop a d)
    have h: "hopCount (Hop a' d # p) = Suc (hopCount p)" for a' by (simp add: hopCount_def)
    show ?thesis
      using Cons [where k = "Suc (Suc k)"]
      by (cases a) (simp_all add: Hop h PRNG_next_skip Let_def)
  qed (use Cons in \<open>simp_all add: hopCount_def\<close>)
qed

lemma addJitter_stream:
  "addJitterToPathSpec p jv (PRNG_skip k g) =
     (jitteredBy jv (PRNG_stream g) k (0, 0) p, PRNG_skip (k + 2 * hopCount p) g)"
  by (simp add: addJitterToPathSpec_def jitterLoop_stream)

lemma jitterContour_jitteredBy:
  "jitterContour jv g c =
     (let r = PRNG_stream g;
          n1 = 2 * hopCount (shapes c);
          n2 = n1 + 2 * hopCount (dots c);
          n3 = n2 + 2 * hopCount (pdpInner c)
      in \<lparr>pdpOuter = jitteredBy jv r n3 (0, 0) (pdpOuter c),
          pdpInner = jitteredBy jv r n2 (0, 0) (pdpInner c),
          dots = jitteredBy jv r n1 (0, 0) (dots c),
          shapes = jitteredBy jv r 0 (0, 0) (shapes c)\<rparr>)"
proof -
  define n1 where "n1 = 2 * hopCount (shapes c)"
  define n2 where "n2 = n1 + 2 * hopCount (dots c)"
  define n3 where "n3 = n2 + 2 * hopCount (pdpInner c)"
  define n4 where "n4 = n3 + 2 * hopCount (pdpOuter c)"
  let ?r = "PRNG_stream g"
  have s: "addJitterToPathSpec (shapes c) jv g =
      (jitteredBy jv ?r 0 (0, 0) (shapes c), PRNG_skip n1 g)"
    using addJitter_stream [of "shapes c" jv 0 g] by (simp add: n1_def)
  have d: "addJitterToPathSpec (dots c) jv (PRNG_skip n1 g) =
      (jitteredBy jv ?r n1 (0, 0) (dots c), PRNG_skip n2 g)"
    unfolding n2_def by (rule addJitter_stream)
  have i: "addJitterToPathSpec (pdpInner c) jv (PRNG_skip n2 g) =
      (jitteredBy jv ?r n2 (0, 0) (pdpInner c), PRNG_skip n3 g)"
    unfolding n3_def by (rule addJitter_stream)
  have out: "addJitterToPathSpec (pdpOuter c) jv (PRNG_skip n3 g) =
      (jitteredBy jv ?r n3 (0, 0) (pdpOuter c), PRNG_skip n4 g)"
    unfolding n4_def by (rule addJitter_stream)
  have j: "jitterContour jv g c =
      c\<lparr>shapes := jitteredBy jv ?r 0 (0, 0) (shapes c),
        dots := jitteredBy jv ?r n1 (0, 0) (dots c),
        pdpInner := jitteredBy jv ?r n2 (0, 0) (pdpInner c),
        pdpOuter := jitteredBy jv ?r n3 (0, 0) (pdpOuter c)\<rparr>"
    by (simp add: jitterContour_def s d i out)
  show ?thesis
    unfolding j Let_def n3_def n2_def n1_def by (cases c) simp
qed

section \<open>Example contours\<close>

lemma PRNG_next_3: "PRNG_next 377401600 = (333417792 / 2147483647, 333417792)"
  by (simp add: PRNG_next_def toDouble_def PRNG_a_def PRNG_c_def PRNG_m_def Let_def bitlen.simps)

lemma PRNG_next_4: "PRNG_next 333417792 = (314102912 / 2147483647, 314102912)"
  by (simp add: PRNG_next_def toDouble_def PRNG_a_def PRNG_c_def PRNG_m_def Let_def bitlen.simps)

lemma PRNG_next_5: "PRNG_next 314102912 = (611429056 / 2147483647, 611429056)"
  by (simp add: PRNG_next_def toDouble_def PRNG_a_def PRNG_c_def PRNG_m_def Let_def bitlen.simps)

lemma PRNG_next_6: "PRNG_next 611429056 = (1995203584 / 2147483647, 1995203584)"
  by (simp add: PRNG_next_def toDouble_def PRNG_a_def PRNG_c_def PRNG_m_def Let_def bitlen.simps)

lemma PRNG_next_7: "PRNG_next 1995203584 = (18793472 / 2147483647, 18793472)"
  by (simp add: PRNG_next_def toDouble_def PRNG_a_def PRNG_c_def PRNG_m_def Let_def bitlen.simps)

lemma PRNG_next_8: "PRNG_next 18793472 = (1909564472 / 2147483647, 1909564472)"
  by (simp add: PRNG_next_def toDouble_def PRNG_a_def PRNG_c_def PRNG_m_def Let_def bitlen.simps)

lemma jitter_centre:
  "addJitterToPathSpec [MoveTo 2 2, Hop H 1, Hop V 1, Hop H (- 1), Hop V (- 1), ClosePath]
       (7/100) (Suc 0) =
     ([MoveTo 2 2,
       LineTo (644662094831 / 214748364700) (419747966271 / 214748364700),
       LineTo (633880557659 / 214748364700) (633610149339 / 214748364700),
       LineTo (84604870131 / 42949672940) (657145558747 / 214748364700),
       LineTo (414727452479 / 214748364700) (441198246479 / 214748364700),
       ClosePath], 1909564472)"
  by (simp add: addJitterToPathSpec_def parseInt_def PRNG_next_1 PRNG_next_2 PRNG_next_3
      PRNG_next_4 PRNG_next_5 PRNG_next_6 PRNG_next_7 PRNG_next_8)

lemma calculateContour_jitter_centre:
  "calculateContour id centreGrid 1 ''jitter-light'' =
     Inr \<lparr>pdpOuter = [], pdpInner = [],
          dots = [MoveTo 2 2,
                  LineTo (644662094831 / 214748364700) (419747966271 / 214748364700),
                  LineTo (633880557659 / 214748364700) (633610149339 / 214748364700),
                  LineTo (84604870131 / 42949672940) (657145558747 / 214748364700),
                  LineTo (414727452479 / 214748364700) (441198246479 / 214748364700),
                  ClosePath],
          shapes = []\<rparr>"
proof -
  have e: "addJitterToPathSpec [] jv g = ([], g)" for jv g
    by (simp add: addJitterToPathSpec_def)
  show ?thesis
    using jitter_centre
    by (simp add: calculateContour_def buildPdp_def
        calculateShapeContour_centre centreGrid_size roundContour_def jitterContour_def
        jitterValueOf_def PRNG_def Contour_def e)
qed

lemma calculateShapeContour_edge:
  "calculateShapeContour edgeGrid 1 ''rounded'' =
     Inr \<lparr>pdpOuter = [], pdpInner = [], dots = [],
          shapes = [MoveTo 9 1, Hop H 1, Hop V 1, Hop H (- 1), Hop H (- 1), Hop V (- 1), Hop H 1,
                    ClosePath]\<rparr>"
  by code_simp

lemma round_edge:
  "makePathSpecRound [MoveTo 9 1, Hop H 1, Hop V 1, Hop H (- 1), Hop H (- 1), Hop V (- 1),
        Hop H 1, ClosePath] =
     Inr [MoveTo (19/2) 1, Arc True (1/2) (1/2), Arc True (-1/2) (1/2), Hop H (- 1),
          Arc True (-1/2) (-1/2), Arc True (1/2) (-1/2), Arc True (1/2) (-1/2), ClosePath]"
  by code_simp

lemma edgeGrid_size: "width edgeGrid = 17" "height edgeGrid = 17"
  by (simp_all add: edgeGrid_def)

lemma shapes_compactContour: "shapes (compactContour c) = compactPathSpec (shapes c)"
  by (simp add: compactContour_def)

lemma compact_edge:
  "compactPathSpec [MoveTo (19/2) 1, Arc True (1/2) (1/2), Arc True (-1/2) (1/2), Hop H (- 1),
          Arc True (-1/2) (-1/2), Arc True (1/2) (-1/2), Arc True (1/2) (-1/2), ClosePath]
   = [MoveTo (19/2) 1, Arc True (1/2) (1/2), Arc True (-1/2) (1/2), Hop H (- 1),
          Arc True (-1/2) (-1/2), Arc True (1/2) (-1/2), Arc True (1/2) (-1/2), ClosePath]"
  by code_simp

lemma round_Nil: "makePathSpecRound [] = Inr []"
  by (simp add: makePathSpecRound_def)

text \<open>With position detection patterns the second pass skips the corners of their areas,
  and a contour beside one can start in the middle of an edge; its rounded loop then ends
  away from its start.\<close>

lemma calculateContour_edge:
  "\<exists>c. calculateContour id edgeGrid 1 ''rounded'' = Inr c \<and>
     shapes c = [MoveTo (19/2) 1, Arc True (1/2) (1/2), Arc True (-1/2) (1/2), Hop H (- 1),
                 Arc True (-1/2) (-1/2), Arc True (1/2) (-1/2), Arc True (1/2) (-1/2), ClosePath]
     \<and> \<not> allLoopsClosed (shapes c)"
proof -
  have "\<not> allLoopsClosed
      [MoveTo (19/2) 1, Arc True (1/2) (1/2), Arc True (-1/2) (1/2), Hop H (- 1),
       Arc True (-1/2) (-1/2), Arc True (1/2) (-1/2), Arc True (1/2) (-1/2), ClosePath]"
    by (simp add: allLoopsClosed_def)
  then show ?thesis
    using compact_edge
    by (simp add: calculateContour_def buildPdp_eq
        calculateShapeContour_edge roundContour_def round_edge round_Nil shapes_compactContour)
qed

text \<open>The generator from the seeds 1073741824 and 3221225472.\<close>

lemma PRNG_next_a: "PRNG_next 1073741824 = (1073754112 / 2147483647, 1073754112)"
  by (simp add: PRNG_next_def toDouble_def PRNG_a_def PRNG_c_def PRNG_m_def Let_def bitlen.simps)

lemma PRNG_next_b: "PRNG_next 3221225472 = (1073754112 / 2147483647, 1073754112)"
  by (simp add: PRNG_next_def toDouble_def PRNG_a_def PRNG_c_def PRNG_m_def Let_def bitlen.simps)

lemma PRNG_next_c: "PRNG_next 1073754112 = (1857331200 / 2147483647, 1857331200)"
  by (simp add: PRNG_next_def toDouble_def PRNG_a_def PRNG_c_def PRNG_m_def Let_def bitlen.simps)

lemma PRNG_next_d: "PRNG_next 1857331200 = (1806192640 / 2147483647, 1806192640)"
  by (simp add: PRNG_next_def toDouble_def PRNG_a_def PRNG_c_def PRNG_m_def Let_def bitlen.simps)

lemma PRNG_next_e: "PRNG_next 1806192640 = (2131378176 / 2147483647, 2131378176)"
  by (simp add: PRNG_next_def toDouble_def PRNG_a_def PRNG_c_def PRNG_m_def Let_def bitlen.simps)

lemma PRNG_next_f: "PRNG_next 2131378176 = (920481792 / 2147483647, 920481792)"
  by (simp add: PRNG_next_def toDouble_def PRNG_a_def PRNG_c_def PRNG_m_def Let_def bitlen.simps)

lemma PRNG_next_g: "PRNG_next 920481792 = (1953030144 / 2147483647, 1953030144)"
  by (simp add: PRNG_next_def toDouble_def PRNG_a_def PRNG_c_def PRNG_m_def Let_def bitlen.simps)

lemma PRNG_next_h: "PRNG_next 1953030144 = (1156026368 / 2147483647, 1156026368)"
  by (simp add: PRNG_next_def toDouble_def PRNG_a_def PRNG_c_def PRNG_m_def Let_def bitlen.simps)

lemma PRNG_next_i: "PRNG_next 1156026368 = (1148747776 / 2147483647, 1148747776)"
  by (simp add: PRNG_next_def toDouble_def PRNG_a_def PRNG_c_def PRNG_m_def Let_def bitlen.simps)

section \<open>calculateContour: the style names\<close>

text \<open>
  C1 (as the code has it). \<open>calculateContour\<close> does not test the name of the style: for
  every grid, margin and style, one of the six names or not, it returns a contour. The
  names are tested by \<open>render\<close>, which fails with the unsupported style error exactly for
  a style that is not one of the six names, and otherwise leaves the view box of the grid
  with one cell of margin on each side and the four paths of \<open>calculateContour\<close> at
  margin 1.
\<close>

theorem calculateContour_total:
  "(\<exists>c. calculateContour tp b margin style = Inr c) \<and>
   (\<exists>c. calculateContour tp b 1 style = Inr c \<and>
        render tp b style =
          (if style \<in> set [''basic'', ''rounded'', ''dots'', ''mosaic'', ''jitter-light'',
                            ''jitter-heavy'']
           then Inr \<lparr>viewBox = (width b + 2, height b + 2),
                     paths = [pdpOuter c, pdpInner c, dots c, shapes c]\<rparr>
           else Inl UnsupportedStyle))"
proof -
  have t: "\<exists>c. calculateContour tp b m style = Inr c" for m
    using raw_contour [of style tp b m] by blast
  obtain c where c: "calculateContour tp b 1 style = Inr c" using t by blast
  define known where "known \<longleftrightarrow> style \<in> set [''basic'', ''rounded'', ''dots'', ''mosaic'',
    ''jitter-light'', ''jitter-heavy'']"
  have "render tp b style =
          (if known
           then Inr \<lparr>viewBox = (width b + 2, height b + 2),
                     paths = [pdpOuter c, pdpInner c, dots c, shapes c]\<rparr>
           else Inl UnsupportedStyle)"
    unfolding render_def c known_def [symmetric] by simp
  then show ?thesis using t c unfolding known_def by blast
qed

text \<open>C1 as stated has \<open>calculateContour\<close> fail for a style that is not one of the six
  names; for the style \<open>foo\<close> it returns the contour of the style \<open>basic\<close>.\<close>

theorem calculateContour_style_counterexample:
  "''foo'' \<notin> set [''basic'', ''rounded'', ''dots'', ''mosaic'', ''jitter-light'', ''jitter-heavy'']
   \<and> calculateContour id centreGrid 1 ''foo'' =
     Inr \<lparr>pdpOuter = [], pdpInner = [],
          dots = [MoveTo 2 2, Hop H 1, Hop V 1, Hop H (- 1), Hop V (- 1), ClosePath],
          shapes = []\<rparr>"
  by (simp add: calculateContour_def buildPdp_def
      calculateShapeContour_centre centreGrid_size roundContour_def compactContour_def
      compactPathSpec_def Contour_def)

section \<open>calculateContour: the position detection patterns\<close>

text \<open>
  C4. For every grid, margin and style \<open>calculateContour\<close> returns a contour. When the
  grid is at most 16 wide or at most 16 high, the two position detection pattern sequences
  are empty. When it is more than 16 wide and more than 16 high, whatever its cells, the
  inner sequence has three loops, one per offset, starting two cells inside the offset, and
  the outer sequence has six loops, two per offset, starting at the offset and one cell
  inside it; the start is half a cell further along the first hop for the styles
  \<open>dots\<close> and \<open>rounded\<close>. For the styles without jitter the sequences are the three
  squares of side 3, and the three pairs of squares of sides 7 and 5, with rounded corners
  for \<open>dots\<close> and \<open>rounded\<close>.
\<close>

theorem pdp_gating:
  "\<exists>c. calculateContour tp b margin style = Inr c \<and>
     (if width b > 16 \<and> height b > 16 then
        (let r = (if style = ''dots'' \<or> style = ''rounded'' then 1/2 else 0) in
           filter isMoveTo (pdpInner c) =
             map (\<lambda>(ox, oy). MoveTo (of_int (ox + 2) + r) (of_int (oy + 2))) (pdpOffsets b margin)
         \<and> filter isMoveTo (pdpOuter c) =
             concat (map (\<lambda>(ox, oy). [MoveTo (of_int ox + r) (of_int oy),
                                       MoveTo (of_int (ox + 1)) (of_int (oy + 1) + r)])
                         (pdpOffsets b margin)))
        \<and> count_list (pdpInner c) ClosePath = 3 \<and> count_list (pdpOuter c) ClosePath = 6
        \<and> (prefix ''jitter-'' style
           \<or> pdpInner c = concat (map (if style = ''dots'' \<or> style = ''rounded''
                                        then roundedInnerAt else squareInnerAt) (pdpOffsets b margin))
             \<and> pdpOuter c = concat (map (if style = ''dots'' \<or> style = ''rounded''
                                          then roundedOuterAt else squareOuterAt) (pdpOffsets b margin)))
      else pdpOuter c = [] \<and> pdpInner c = [])"
proof -
  obtain raw where raw: "calculateContour tp b margin style = Inr (finish style raw)"
    "pdpOuter raw = pdpOuterOf b margin style" "pdpInner raw = pdpInnerOf b margin style"
    using raw_contour [of style tp b margin] by blast
  let ?c = "finish style raw"
  let ?offs = "pdpOffsets b margin"
  have e: "addJitterToPathSpec [] jv g = ([], g)" for jv g
    by (simp add: addJitterToPathSpec_def)
  show ?thesis
  proof (cases "width b > 16 \<and> height b > 16")
    case False
    have "pdpOuter raw = []" "pdpInner raw = []"
      by (simp_all add: raw pdpOuterOf_def pdpInnerOf_def False)
    then have "pdpOuter ?c = [] \<and> pdpInner ?c = []"
      by (simp add: finish_def jitterContour_stream compactContour_def compactPathSpec_def e)
    then show ?thesis using raw(1) by (simp add: False)
  next
    case True
    show ?thesis
    proof (cases "prefix ''jitter-'' style")
      case j: True
      then have s: "style \<noteq> ''dots''" "style \<noteq> ''rounded''" by auto
      have "pdpOuter raw = concat (map pdpOuterAt ?offs)" "pdpInner raw = concat (map pdpInnerAt ?offs)"
        using True s by (simp_all add: raw pdpOuterOf_def pdpInnerOf_def)
      then show ?thesis
        using raw(1) True j s
        by (simp add: finish_def jitterContour_stream addJitter_moves addJitter_closes
            pdpOffsets_def pdp_moves del: concat.simps list.map)
    next
      case n: False
      show ?thesis
      proof (cases "style = ''dots'' \<or> style = ''rounded''")
        case r: True
        then have "pdpOuter raw = concat (map roundedOuterAt ?offs)"
          "pdpInner raw = concat (map roundedInnerAt ?offs)"
          using True by (auto simp: raw pdpOuterOf_def pdpInnerOf_def)
        then have "pdpOuter ?c = concat (map roundedOuterAt ?offs)"
          "pdpInner ?c = concat (map roundedInnerAt ?offs)"
          using n by (simp_all add: finish_def compactContour_def pdpOffsets_def
              compact_rounded_inner compact_rounded_outer del: concat.simps list.map)
        then show ?thesis
          using raw(1) True n r
          by (simp add: pdpOffsets_def rounded_moves del: concat.simps list.map)
      next
        case r: False
        then have "pdpOuter raw = concat (map pdpOuterAt ?offs)"
          "pdpInner raw = concat (map pdpInnerAt ?offs)"
          using True by (auto simp: raw pdpOuterOf_def pdpInnerOf_def)
        then have "pdpOuter ?c = concat (map squareOuterAt ?offs)"
          "pdpInner ?c = concat (map squareInnerAt ?offs)"
          using n by (simp_all add: finish_def compactContour_def pdpOffsets_def
              compact_inner compact_outer del: concat.simps list.map)
        then show ?thesis
          using raw(1) True n r
          by (simp add: pdpOffsets_def square_moves del: concat.simps list.map)
      qed
    qed
  qed
qed

section \<open>calculateContour: closed loops\<close>




section \<open>calculateContour: the jitter stream\<close>

lemma jitter_raw:
  assumes "prefix ''jitter-'' style"
  shows "\<exists>t. calculateShapeContour b margin style = Inr t \<and>
     calculateContour tp b margin style =
       Inr (jitterContour (jitterValueOf style) (PRNG 1)
         \<lparr>pdpOuter = (if width b > 16 \<and> height b > 16
                       then concat (map pdpOuterAt (pdpOffsets b margin)) else []),
          pdpInner = (if width b > 16 \<and> height b > 16
                       then concat (map pdpInnerAt (pdpOffsets b margin)) else []),
          dots = dots t, shapes = shapes t\<rparr>)"
proof -
  have s: "style \<noteq> ''dots''" "style \<noteq> ''mosaic''" "style \<noteq> ''rounded''"
    using assms by auto
  obtain t where t: "calculateShapeContour b margin style = Inr t"
    using calculateShapeContour_inv [of b margin style] by blast
  show ?thesis
    using assms s
    by (intro exI [of _ t])
       (simp add: t calculateContour_def buildPdp_eq roundContour_def pdpOuterOf_def pdpInnerOf_def)
qed

text \<open>
  C3 (as the code has it). For a jitter style the result is a function of the grid, the
  margin and the style: the generator is always started with \<^verbatim>\<open>new PRNG(1)\<close>. The
  result is the contour of \<open>calculateShapeContour\<close> and the position detection patterns
  with every hop turned into a line to its end moved by two numbers of that one stream, the
  numbers taken in the order shapes, dots, inner and outer position detection pattern.
\<close>

theorem jitter_stream:
  assumes "prefix ''jitter-'' style"
  shows "\<exists>t. calculateShapeContour b margin style = Inr t \<and>
     calculateContour tp b margin style =
       Inr (let jv = jitterValueOf style;
                r = PRNG_stream (PRNG 1);
                inner = (if width b > 16 \<and> height b > 16
                         then concat (map pdpInnerAt (pdpOffsets b margin)) else []);
                outer = (if width b > 16 \<and> height b > 16
                         then concat (map pdpOuterAt (pdpOffsets b margin)) else []);
                n1 = 2 * hopCount (shapes t);
                n2 = n1 + 2 * hopCount (dots t);
                n3 = n2 + 2 * hopCount inner
            in \<lparr>pdpOuter = jitteredBy jv r n3 (0, 0) outer,
                pdpInner = jitteredBy jv r n2 (0, 0) inner,
                dots = jitteredBy jv r n1 (0, 0) (dots t),
                shapes = jitteredBy jv r 0 (0, 0) (shapes t)\<rparr>)"
proof -
  obtain t where t: "calculateShapeContour b margin style = Inr t"
     "calculateContour tp b margin style =
       Inr (jitterContour (jitterValueOf style) (PRNG 1)
         \<lparr>pdpOuter = (if width b > 16 \<and> height b > 16
                       then concat (map pdpOuterAt (pdpOffsets b margin)) else []),
          pdpInner = (if width b > 16 \<and> height b > 16
                       then concat (map pdpInnerAt (pdpOffsets b margin)) else []),
          dots = dots t, shapes = shapes t\<rparr>)"
    using jitter_raw [OF assms] by blast
  show ?thesis
    by (rule exI [of _ t]) (simp add: t jitterContour_jitteredBy Let_def)
qed

text \<open>The style \<open>jitter-light\<close> on the grid with one filled cell.\<close>

theorem jitter_stream_witness:
  "calculateContour id centreGrid 1 ''jitter-light'' =
     Inr \<lparr>pdpOuter = [], pdpInner = [],
          dots = jitteredBy (7/100) (PRNG_stream (PRNG 1)) 0 (0, 0)
                   [MoveTo 2 2, Hop H 1, Hop V 1, Hop H (- 1), Hop V (- 1), ClosePath],
          shapes = []\<rparr>"
proof -
  have p: "prefix ''jitter-'' ''jitter-light''" by simp
  have h: "hopCount [] = 0" by (simp add: hopCount_def)
  show ?thesis
    using jitter_stream [OF p, of centreGrid 1 id]
    by (simp add: calculateShapeContour_centre centreGrid_size jitterValueOf_def Let_def h
        del: One_nat_def)
qed

text \<open>
  C3 as stated has every change of the seed change a coordinate. \<open>calculateContour\<close>
  takes no seed: it moves the loop around one cell with \<^verbatim>\<open>new PRNG(1)\<close>. \<open>PRNG\<close> and
  \<open>addJitterToPathSpec\<close> take one, and the seeds 1073741824 and 3221225472, which differ
  by the modulus, give the same numbers and move that loop to the same points.
\<close>

theorem seed_counterexample:
  "PRNG 1073741824 \<noteq> PRNG 3221225472
   \<and> calculateShapeContour centreGrid 1 ''jitter-light'' =
       Inr \<lparr>pdpOuter = [], pdpInner = [],
            dots = [MoveTo 2 2, Hop H 1, Hop V 1, Hop H (- 1), Hop V (- 1), ClosePath],
            shapes = []\<rparr>
   \<and> calculateContour id centreGrid 1 ''jitter-light'' =
       Inr \<lparr>pdpOuter = [], pdpInner = [],
            dots = fst (addJitterToPathSpec
                     [MoveTo 2 2, Hop H 1, Hop V 1, Hop H (- 1), Hop V (- 1), ClosePath]
                     (7/100) (PRNG 1)),
            shapes = []\<rparr>
   \<and> addJitterToPathSpec [MoveTo 2 2, Hop H 1, Hop V 1, Hop H (- 1), Hop V (- 1), ClosePath]
         (7/100) (PRNG 1073741824) =
       ([MoveTo 2 2,
         LineTo (644245266139 / 214748364700) (440466980671 / 214748364700),
         LineTo (654499405531 / 214748364700) (131810400607 / 42949672940),
         LineTo (427351088959 / 214748364700) (656555130587 / 214748364700),
         LineTo (430648713023 / 214748364700) (86109362547 / 42949672940),
         ClosePath], 1148747776)
   \<and> addJitterToPathSpec [MoveTo 2 2, Hop H 1, Hop V 1, Hop H (- 1), Hop V (- 1), ClosePath]
         (7/100) (PRNG 3221225472) =
       ([MoveTo 2 2,
         LineTo (644245266139 / 214748364700) (440466980671 / 214748364700),
         LineTo (654499405531 / 214748364700) (131810400607 / 42949672940),
         LineTo (427351088959 / 214748364700) (656555130587 / 214748364700),
         LineTo (430648713023 / 214748364700) (86109362547 / 42949672940),
         ClosePath], 1148747776)"
proof -
  have c: "calculateShapeContour centreGrid 1 ''jitter-light'' =
       Inr \<lparr>pdpOuter = [], pdpInner = [],
            dots = [MoveTo 2 2, Hop H 1, Hop V 1, Hop H (- 1), Hop V (- 1), ClosePath],
            shapes = []\<rparr>"
    using calculateShapeContour_centre [of 1 "''jitter-light''"] by simp
  have j: "calculateContour id centreGrid 1 ''jitter-light'' =
       Inr \<lparr>pdpOuter = [], pdpInner = [],
            dots = fst (addJitterToPathSpec
                     [MoveTo 2 2, Hop H 1, Hop V 1, Hop H (- 1), Hop V (- 1), ClosePath]
                     (7/100) (PRNG 1)),
            shapes = []\<rparr>"
    using jitter_centre by (simp add: calculateContour_jitter_centre PRNG_def)
  have s: "addJitterToPathSpec [MoveTo 2 2, Hop H 1, Hop V 1, Hop H (- 1), Hop V (- 1), ClosePath]
         (7/100) (PRNG 1073741824) =
       ([MoveTo 2 2,
         LineTo (644245266139 / 214748364700) (440466980671 / 214748364700),
         LineTo (654499405531 / 214748364700) (131810400607 / 42949672940),
         LineTo (427351088959 / 214748364700) (656555130587 / 214748364700),
         LineTo (430648713023 / 214748364700) (86109362547 / 42949672940),
         ClosePath], 1148747776)
   \<and> addJitterToPathSpec [MoveTo 2 2, Hop H 1, Hop V 1, Hop H (- 1), Hop V (- 1), ClosePath]
         (7/100) (PRNG 3221225472) =
       ([MoveTo 2 2,
         LineTo (644245266139 / 214748364700) (440466980671 / 214748364700),
         LineTo (654499405531 / 214748364700) (131810400607 / 42949672940),
         LineTo (427351088959 / 214748364700) (656555130587 / 214748364700),
         LineTo (430648713023 / 214748364700) (86109362547 / 42949672940),
         ClosePath], 1148747776)"
    by (simp add: addJitterToPathSpec_def parseInt_def PRNG_def PRNG_next_a PRNG_next_b
        PRNG_next_c PRNG_next_d PRNG_next_e PRNG_next_f PRNG_next_g PRNG_next_h PRNG_next_i)
  have n: "PRNG 1073741824 \<noteq> PRNG 3221225472" by (simp add: PRNG_def)
  show ?thesis using n c j s by (intro conjI) simp_all
qed

end
